theory Spec2Isabelle
  imports Main
begin

section \<open>Data model of \<open>src/controllers/connectionManager.ts\<close>\<close>

type_synonym uri = string
type_synonym promise_id = nat
type_synonym request_id = nat

text \<open>
  \<open>Interfaces.IConnectionCredentials\<close>: the four fields \<open>connect\<close> reads
  (lines 134-137).
\<close>

record IConnectionCredentials =
  server :: string
  database :: string
  user :: string
  password :: string

text \<open>\<open>class ConnectionInfo\<close> (lines 15-21).\<close>

record ConnectionInfo =
  connectionId :: string
  credentials :: IConnectionCredentials

text \<open>
  \<open>Contracts.ConnectionDetails\<close> and \<open>Contracts.ConnectParams\<close> as lines 133-141 fill
  them; \<open>Contracts.DisconnectParams\<close> has the single field \<open>ownerUri\<close> (line 81) and is
  represented by that uri. Record fields share one name space, so the field \<open>password\<close>
  of the details is \<open>detailsPassword\<close> here, and the field \<open>connectionId\<close> of the result
  below is \<open>resultConnectionId\<close>.
\<close>

record ConnectionDetails =
  userName :: string
  detailsPassword :: string
  serverName :: string
  databaseName :: string

record ConnectParams =
  ownerUri :: uri
  connection :: ConnectionDetails

text \<open>
  The result of a connection request, as line 151 and lines 169-170 read it. The handle
  is optional: \<open>None\<close> stands for a missing (\<open>undefined\<close> or \<open>null\<close>) \<open>connectionId\<close>,
  which the truthiness test of line 151 rejects like the empty string.
\<close>

record ConnectionResult =
  resultConnectionId :: "string option"
  messages :: string

text \<open>
  The constants of \<open>models/constants\<close> that the class uses. Their values are not part
  of this file of the repository, so they are parameters of the model.
\<close>

record Constants =
  msgError :: string
  msgOpenSqlFile :: string
  msgChooseDatabaseNotConnected :: string

text \<open>
  Modelled from the spec: \<open>Utils.Timer\<close> (\<open>models/utils\<close>) is not among the sources. A
  timer measures the time elapsed between its construction and its \<open>end()\<close> call:
  it reads the clock when it is constructed, \<open>end()\<close> reads the clock once and fixes the
  elapsed time, and \<open>getDuration()\<close> returns the elapsed time (up to now for a timer
  that has not been ended).
\<close>

record Timer =
  startTime :: int
  elapsed :: "int option"

subsection \<open>The registry object \<open>_connections\<close>\<close>

text \<open>
  \<open>_connections\<close> is the object literal \<open>{}\<close> of line 36, used as a dictionary. It is an
  ordinary JavaScript object, so besides its own properties it inherits the properties
  of its prototype chain: \<open>fileUri in this._connections\<close> (line 48) is true for every
  inherited name as well. The prototype is \<open>Object.prototype\<close> unless an assignment to
  the key \<open>__proto__\<close> (an accessor inherited from \<open>Object.prototype\<close>) has replaced it
  by the assigned \<open>ConnectionInfo\<close> object; \<open>delete\<close> removes own properties only.
\<close>

record registry =
  own :: "uri \<rightharpoonup> ConnectionInfo"
  proto :: "ConnectionInfo option"

definition objectPrototypeKeys :: "string list" where
  "objectPrototypeKeys =
     [''constructor'', ''__defineGetter__'', ''__defineSetter__'', ''hasOwnProperty'',
      ''__lookupGetter__'', ''__lookupSetter__'', ''isPrototypeOf'',
      ''propertyIsEnumerable'', ''toString'', ''valueOf'', ''__proto__'',
      ''toLocaleString'']"

definition inherited :: "registry \<Rightarrow> uri \<Rightarrow> bool" where
  "inherited r k =
     (k \<in> set objectPrototypeKeys \<or>
      (proto r \<noteq> None \<and> (k = ''connectionId'' \<or> k = ''credentials'')))"

definition hasProperty :: "registry \<Rightarrow> uri \<Rightarrow> bool" where
  "hasProperty r k = (own r k \<noteq> None \<or> inherited r k)"

definition setProperty :: "uri \<Rightarrow> ConnectionInfo \<Rightarrow> registry \<Rightarrow> registry" where
  "setProperty k v r =
     (if k = ''__proto__'' then r\<lparr>proto := Some v\<rparr> else r\<lparr>own := (own r)(k \<mapsto> v)\<rparr>)"

definition deleteProperty :: "uri \<Rightarrow> registry \<Rightarrow> registry" where
  "deleteProperty k r = r\<lparr>own := (own r)(k := None)\<rparr>"

text \<open>
  \<open>self._connections[fileUri].credentials\<close> (line 61): the credentials of the own entry;
  for the key \<open>__proto__\<close> the property is read from the prototype object; every other
  inherited value has no \<open>credentials\<close> property (\<open>undefined\<close>, here \<open>None\<close>).
\<close>

definition getCredentials :: "registry \<Rightarrow> uri \<Rightarrow> IConnectionCredentials option" where
  "getCredentials r k =
     (case own r k of
        Some ci \<Rightarrow> Some (credentials ci)
      | None \<Rightarrow> (if k = ''__proto__'' then map_option credentials (proto r) else None))"

subsection \<open>Promises, closures, effects\<close>

text \<open>
  The state of a promise created by the class. \<open>reject()\<close> is called without a reason
  (line 172), so a rejection carries an optional reason.
\<close>

datatype promise_state = Pending | Resolved bool | Rejected "string option"

text \<open>
  The callbacks passed to \<open>then\<close> on the thenables of the protocol client and of the
  connection UI, with the variables they close over.
\<close>

datatype pending =
    DisconnectCallback uri promise_id
  | ConnectCallback uri IConnectionCredentials Timer Timer promise_id
  | ChooseDatabaseCallback uri
  | NewConnectionCallback uri promise_id
  | CreateProfileCallback promise_id

text \<open>
  The callbacks passed to \<open>then\<close> on promises of the class itself: line 63-65, lines
  111-117 and lines 114-116. None of them reads the value the promise resolved with.
\<close>

datatype reaction =
    ThenConnect uri IConnectionCredentials
  | ThenConnectAndResolve uri IConnectionCredentials promise_id
  | ThenResolve promise_id

text \<open>What the collaborators are asked to do, in the order the calls are made.\<close>

datatype effect =
    StatusConnecting uri IConnectionCredentials
  | StatusConnectSuccess uri IConnectionCredentials
  | StatusConnectError uri IConnectionCredentials string
  | StatusNotConnected uri
  | ShowInfoMsg string
  | ShowWarnMsg string
  | ShowErrorMsg string
  | SendConnectionRequest request_id ConnectParams
  | SendDisconnectRequest request_id uri
  | ShowConnections request_id
  | ShowDatabasesOnCurrentServer request_id "IConnectionCredentials option"
  | CreateAndSaveProfile request_id
  | RemoveProfile
  | TelemetryEvent string int int

text \<open>
  \<open>TelemetryEvent name e s\<close> is \<open>Telemetry.sendTelemetryEvent\<close> with the measures
  \<open>extensionConnectionTime = e\<close> and \<open>serviceConnectionTime = s\<close> (lines 162-165).
\<close>

record state =
  constants :: Constants
  clock :: "nat \<Rightarrow> int"
  clockReads :: nat
  connections :: registry
  promises :: "promise_id \<Rightarrow> promise_state"
  nextPromise :: promise_id
  reactions :: "(promise_id \<times> reaction) list"
  microtasks :: "reaction list"
  requests :: "(request_id \<times> pending) list"
  nextRequest :: request_id
  effects :: "effect list"

text \<open>
  \<open>clock\<close> is the sequence of readings of the system clock, \<open>clockReads\<close> the number of
  readings taken so far: the environment decides how much time passes between two
  readings. \<open>requests\<close> are the requests in flight (to the service or to the UI), each
  with the callback that runs on its answer.
\<close>

definition init :: "Constants \<Rightarrow> (nat \<Rightarrow> int) \<Rightarrow> state" where
  "init K clk =
     \<lparr>constants = K, clock = clk, clockReads = 0,
      connections = \<lparr>own = Map.empty, proto = None\<rparr>,
      promises = (\<lambda>_. Pending), nextPromise = 0,
      reactions = [], microtasks = [],
      requests = [], nextRequest = 0,
      effects = []\<rparr>"

section \<open>Operations\<close>

subsection \<open>Collaborators, clock and promises\<close>

definition emit :: "effect \<Rightarrow> state \<Rightarrow> state" where
  "emit e s = s\<lparr>effects := effects s @ [e]\<rparr>"

definition hrtime :: "state \<Rightarrow> int \<times> state" where
  "hrtime s = (clock s (clockReads s), s\<lparr>clockReads := Suc (clockReads s)\<rparr>)"

definition newTimer :: "state \<Rightarrow> Timer \<times> state" where
  "newTimer s = (case hrtime s of (t, s') \<Rightarrow> (\<lparr>startTime = t, elapsed = None\<rparr>, s'))"

definition Timer_end :: "Timer \<Rightarrow> state \<Rightarrow> Timer \<times> state" where
  "Timer_end tm s =
     (case elapsed tm of
        Some d \<Rightarrow> (tm, s)
      | None \<Rightarrow> (case hrtime s of (t, s') \<Rightarrow> (tm\<lparr>elapsed := Some (t - startTime tm)\<rparr>, s')))"

definition getDuration :: "Timer \<Rightarrow> state \<Rightarrow> int \<times> state" where
  "getDuration tm s =
     (case elapsed tm of
        Some d \<Rightarrow> (d, s)
      | None \<Rightarrow> (case hrtime s of (t, s') \<Rightarrow> (t - startTime tm, s')))"

text \<open>
  \<open>new Promise\<close>, its \<open>resolve\<close> and \<open>reject\<close> functions, and \<open>then\<close> with a fulfilment
  callback only. A promise settles once: later calls of \<open>resolve\<close> or \<open>reject\<close> do
  nothing. The callbacks waiting on a promise are queued as microtasks when it is
  fulfilled and are never run when it is rejected.
\<close>

definition newPromise :: "state \<Rightarrow> promise_id \<times> state" where
  "newPromise s =
     (nextPromise s,
      s\<lparr>promises := (promises s)(nextPromise s := Pending),
        nextPromise := Suc (nextPromise s)\<rparr>)"

definition resolve :: "promise_id \<Rightarrow> bool \<Rightarrow> state \<Rightarrow> state" where
  "resolve p v s =
     (if promises s p = Pending
      then s\<lparr>promises := (promises s)(p := Resolved v),
             microtasks := microtasks s @ map snd (filter (\<lambda>qr. fst qr = p) (reactions s)),
             reactions := filter (\<lambda>qr. fst qr \<noteq> p) (reactions s)\<rparr>
      else s)"

definition reject :: "promise_id \<Rightarrow> string option \<Rightarrow> state \<Rightarrow> state" where
  "reject p why s =
     (if promises s p = Pending
      then s\<lparr>promises := (promises s)(p := Rejected why),
             reactions := filter (\<lambda>qr. fst qr \<noteq> p) (reactions s)\<rparr>
      else s)"

definition promise_then :: "promise_id \<Rightarrow> reaction \<Rightarrow> state \<Rightarrow> state" where
  "promise_then p r s =
     (case promises s p of
        Pending \<Rightarrow> s\<lparr>reactions := reactions s @ [(p, r)]\<rparr>
      | Resolved v \<Rightarrow> s\<lparr>microtasks := microtasks s @ [r]\<rparr>
      | Rejected why \<Rightarrow> s)"

text \<open>
  \<open>sendRequest(...).then(callback)\<close> on the protocol client, and the calls of the
  connection UI that answer later: the request is recorded with its callback.
\<close>

definition sendRequest :: "(request_id \<Rightarrow> effect) \<Rightarrow> pending \<Rightarrow> state \<Rightarrow> state" where
  "sendRequest eff k s =
     (emit (eff (nextRequest s)) s)
       \<lparr>requests := requests s @ [(nextRequest s, k)],
        nextRequest := Suc (nextRequest s)\<rparr>"

subsection \<open>ConnectionManager\<close>

text \<open>Line 47-49.\<close>

definition isConnected :: "state \<Rightarrow> uri \<Rightarrow> bool" where
  "isConnected s fileUri = hasProperty (connections s) fileUri"

text \<open>
  Lines 75-93. The executor sends the request when the uri is connected, and then calls
  \<open>resolve(true)\<close> (line 91) on either path.
\<close>

definition disconnect :: "uri \<Rightarrow> state \<Rightarrow> promise_id \<times> state" where
  "disconnect fileUri s =
     (case newPromise s of (p, s1) \<Rightarrow>
        (p, resolve p True
              (if isConnected s1 fileUri
               then sendRequest (\<lambda>i. SendDisconnectRequest i fileUri)
                      (DisconnectCallback fileUri p) s1
               else s1)))"

text \<open>Lines 84-89, run on the answer to the disconnect request.\<close>

definition disconnectCallback :: "uri \<Rightarrow> promise_id \<Rightarrow> bool \<Rightarrow> state \<Rightarrow> state" where
  "disconnectCallback fileUri p result s =
     (let s1 = emit (StatusNotConnected fileUri) s;
          s2 = s1\<lparr>connections := deleteProperty fileUri (connections s1)\<rparr>
      in resolve p result s2)"

text \<open>Lines 71-73; the argument is the value of \<open>Utils.getActiveTextEditorUri()\<close>.\<close>

definition onDisconnect :: "uri \<Rightarrow> state \<Rightarrow> promise_id \<times> state" where
  "onDisconnect activeUri s = disconnect activeUri s"

text \<open>Lines 124-176, up to the request.\<close>

definition connect :: "uri \<Rightarrow> IConnectionCredentials \<Rightarrow> state \<Rightarrow> promise_id \<times> state" where
  "connect fileUri connectionCreds s =
     (case newPromise s of (p, s1) \<Rightarrow>
      case newTimer s1 of (extensionTimer, s2) \<Rightarrow>
      let s3 = emit (StatusConnecting fileUri connectionCreds) s2;
          connectionDetails =
            \<lparr>userName = user connectionCreds,
             detailsPassword = password connectionCreds,
             serverName = server connectionCreds,
             databaseName = database connectionCreds\<rparr>;
          connectParams = \<lparr>ownerUri = fileUri, connection = connectionDetails\<rparr>
      in case newTimer s3 of (serviceTimer, s4) \<Rightarrow>
           (p, sendRequest (\<lambda>i. SendConnectionRequest i connectParams)
                 (ConnectCallback fileUri connectionCreds extensionTimer serviceTimer p) s4))"

text \<open>
  The test of line 151, \<open>result.connectionId && result.connectionId !== ''\<close>: the
  handle when it is present and not empty.
\<close>

definition validConnectionId :: "ConnectionResult \<Rightarrow> string option" where
  "validConnectionId result =
     (case resultConnectionId result of
        None \<Rightarrow> None
      | Some cid \<Rightarrow> (if cid \<noteq> [] then Some cid else None))"

text \<open>Lines 147-174, run on the answer to the connection request.\<close>

definition connectCallback ::
  "uri \<Rightarrow> IConnectionCredentials \<Rightarrow> Timer \<Rightarrow> Timer \<Rightarrow> promise_id \<Rightarrow> ConnectionResult
     \<Rightarrow> state \<Rightarrow> state" where
  "connectCallback fileUri connectionCreds extensionTimer serviceTimer p result s =
     (case Timer_end serviceTimer s of (serviceTimer1, s1) \<Rightarrow>
      (case validConnectionId result of
        Some cid \<Rightarrow>
          (let conn = \<lparr>connectionId = cid, credentials = connectionCreds\<rparr>;
               s2 = s1\<lparr>connections := setProperty fileUri conn (connections s1)\<rparr>;
               s3 = emit (StatusConnectSuccess fileUri connectionCreds) s2
           in case Timer_end extensionTimer s3 of (extensionTimer1, s4) \<Rightarrow>
              case getDuration extensionTimer1 s4 of (ext, s5) \<Rightarrow>
              case getDuration serviceTimer1 s5 of (svc, s6) \<Rightarrow>
              case getDuration serviceTimer1 s6 of (svc2, s7) \<Rightarrow>
                resolve p True
                  (emit (TelemetryEvent ''DatabaseConnected'' (ext - svc) svc2) s7))
      | None \<Rightarrow>
          (let s2 = emit (ShowErrorMsg (msgError (constants s1) @ messages result)) s1;
               s3 = emit (StatusConnectError fileUri connectionCreds (messages result)) s2
           in reject p None s3)))"

text \<open>Lines 52-68; the argument is the value of \<open>Utils.getActiveTextEditorUri()\<close>.\<close>

definition onChooseDatabase :: "uri \<Rightarrow> state \<Rightarrow> state" where
  "onChooseDatabase fileUri s =
     (if \<not> isConnected s fileUri
      then emit (ShowWarnMsg (msgChooseDatabaseNotConnected (constants s))) s
      else sendRequest
             (\<lambda>i. ShowDatabasesOnCurrentServer i (getCredentials (connections s) fileUri))
             (ChooseDatabaseCallback fileUri) s)"

text \<open>Lines 61-67, run on the answer of the database picker (\<open>None\<close> is \<open>undefined\<close>).\<close>

definition chooseDatabaseCallback ::
  "uri \<Rightarrow> IConnectionCredentials option \<Rightarrow> state \<Rightarrow> state" where
  "chooseDatabaseCallback fileUri newDatabaseCredentials s =
     (case newDatabaseCredentials of
        None \<Rightarrow> s
      | Some c \<Rightarrow>
          (case disconnect fileUri s of (d, s1) \<Rightarrow> promise_then d (ThenConnect fileUri c) s1))"

text \<open>Lines 96-121; the argument is the value of \<open>Utils.getActiveTextEditorUri()\<close>.\<close>

definition onNewConnection :: "uri \<Rightarrow> state \<Rightarrow> promise_id \<times> state" where
  "onNewConnection fileUri s =
     (let s1 = (if fileUri = [] then emit (ShowInfoMsg (msgOpenSqlFile (constants s))) s
                else s)
      in case newPromise s1 of (p, s2) \<Rightarrow>
           (p, sendRequest ShowConnections (NewConnectionCallback fileUri p) s2))"

text \<open>Lines 108-119, run on the answer of the connection picker.\<close>

definition newConnectionCallback ::
  "uri \<Rightarrow> promise_id \<Rightarrow> IConnectionCredentials option \<Rightarrow> state \<Rightarrow> state" where
  "newConnectionCallback fileUri p connectionCreds s =
     (case connectionCreds of
        None \<Rightarrow> s
      | Some c \<Rightarrow>
          (case disconnect fileUri s of (d, s1) \<Rightarrow>
             promise_then d (ThenConnectAndResolve fileUri c p) s1))"

text \<open>Lines 178-189 and 191-193; the profile is given by its truthiness.\<close>

definition onCreateProfile :: "state \<Rightarrow> promise_id \<times> state" where
  "onCreateProfile s =
     (case newPromise s of (p, s1) \<Rightarrow>
        (p, sendRequest CreateAndSaveProfile (CreateProfileCallback p) s1))"

definition createProfileCallback :: "promise_id \<Rightarrow> bool \<Rightarrow> state \<Rightarrow> state" where
  "createProfileCallback p profile s = (if profile then resolve p True s else resolve p False s)"

definition onRemoveProfile :: "state \<Rightarrow> state" where
  "onRemoveProfile s = emit RemoveProfile s"

text \<open>The callbacks on the class's own promises: line 64, lines 113-116, line 115.\<close>

fun runReaction :: "reaction \<Rightarrow> state \<Rightarrow> state" where
  "runReaction (ThenConnect fileUri c) s = snd (connect fileUri c s)"
| "runReaction (ThenConnectAndResolve fileUri c p) s =
     (case connect fileUri c s of (q, s1) \<Rightarrow> promise_then q (ThenResolve p) s1)"
| "runReaction (ThenResolve p) s = resolve p True s"

subsection \<open>The event loop\<close>

text \<open>
  What can happen to a connection manager: a caller invokes a public method, the
  service or the UI answers a request in flight, or the next queued microtask runs.
  An answer is delivered in a task of its own, so only when no microtask is queued; an
  answer to a request that is not in flight, or of the wrong kind, cannot happen
  (\<open>None\<close>).
\<close>

datatype response =
    DisconnectResult bool
  | ConnectResult ConnectionResult
  | PickedCredentials "IConnectionCredentials option"
  | SavedProfile bool

datatype event =
    Call_connect uri IConnectionCredentials
  | Call_disconnect uri
  | Call_onDisconnect uri
  | Call_onChooseDatabase uri
  | Call_onNewConnection uri
  | Call_onCreateProfile
  | Call_onRemoveProfile
  | Respond request_id response
  | RunMicrotask

fun runCallback :: "pending \<Rightarrow> response \<Rightarrow> state \<Rightarrow> state option" where
  "runCallback (DisconnectCallback fileUri p) (DisconnectResult b) s =
     Some (disconnectCallback fileUri p b s)"
| "runCallback (ConnectCallback fileUri c et st p) (ConnectResult r) s =
     Some (connectCallback fileUri c et st p r s)"
| "runCallback (ChooseDatabaseCallback fileUri) (PickedCredentials c) s =
     Some (chooseDatabaseCallback fileUri c s)"
| "runCallback (NewConnectionCallback fileUri p) (PickedCredentials c) s =
     Some (newConnectionCallback fileUri p c s)"
| "runCallback (CreateProfileCallback p) (SavedProfile b) s =
     Some (createProfileCallback p b s)"
| "runCallback _ _ s = None"

fun step :: "event \<Rightarrow> state \<Rightarrow> state option" where
  "step (Call_connect fileUri c) s = Some (snd (connect fileUri c s))"
| "step (Call_disconnect fileUri) s = Some (snd (disconnect fileUri s))"
| "step (Call_onDisconnect activeUri) s = Some (snd (onDisconnect activeUri s))"
| "step (Call_onChooseDatabase activeUri) s = Some (onChooseDatabase activeUri s)"
| "step (Call_onNewConnection activeUri) s = Some (snd (onNewConnection activeUri s))"
| "step Call_onCreateProfile s = Some (snd (onCreateProfile s))"
| "step Call_onRemoveProfile s = Some (onRemoveProfile s)"
| "step (Respond i r) s =
     (if microtasks s \<noteq> [] then None
      else case map_of (requests s) i of
             None \<Rightarrow> None
           | Some k \<Rightarrow> runCallback k r (s\<lparr>requests := filter (\<lambda>ik. fst ik \<noteq> i) (requests s)\<rparr>))"
| "step RunMicrotask s =
     (case microtasks s of
        [] \<Rightarrow> None
      | r # rs \<Rightarrow> Some (runReaction r (s\<lparr>microtasks := rs\<rparr>)))"

fun run :: "event list \<Rightarrow> state \<Rightarrow> state option" where
  "run [] s = Some s"
| "run (e # es) s = (case step e s of None \<Rightarrow> None | Some s1 \<Rightarrow> run es s1)"

section \<open>Well-formed states\<close>

text \<open>
  Every promise of the class is settled by the closure that received its \<open>resolve\<close> and
  \<open>reject\<close> functions. \<open>settledEarly\<close> is the promise of a disconnect callback, which
  line 91 has settled before the callback runs; \<open>awaited\<close> and \<open>reactionPromise\<close> are the
  promises the other closures settle when they run.
\<close>

fun settledEarly :: "pending \<Rightarrow> promise_id list" where
  "settledEarly (DisconnectCallback fileUri p) = [p]"
| "settledEarly _ = []"

fun awaited :: "pending \<Rightarrow> promise_id list" where
  "awaited (ConnectCallback fileUri c et st p) = [p]"
| "awaited (NewConnectionCallback fileUri p) = [p]"
| "awaited (CreateProfileCallback p) = [p]"
| "awaited _ = []"

fun reactionPromise :: "reaction \<Rightarrow> promise_id list" where
  "reactionPromise (ThenConnect fileUri c) = []"
| "reactionPromise (ThenConnectAndResolve fileUri c p) = [p]"
| "reactionPromise (ThenResolve p) = [p]"

definition awaitedAll :: "state \<Rightarrow> promise_id list" where
  "awaitedAll s =
     concat (map (\<lambda>ik. awaited (snd ik)) (requests s)) @
     concat (map (\<lambda>qr. reactionPromise (snd qr)) (reactions s)) @
     concat (map reactionPromise (microtasks s))"

definition owners :: "state \<Rightarrow> promise_id list" where
  "owners s = concat (map (\<lambda>ik. settledEarly (snd ik)) (requests s)) @ awaitedAll s"

fun freshTimers :: "pending \<Rightarrow> bool" where
  "freshTimers (ConnectCallback fileUri c et st p) = (elapsed et = None \<and> elapsed st = None)"
| "freshTimers _ = True"

text \<open>
  A state is well formed when no promise is held by two closures, the promises and
  requests in use have been allocated, a promise that a closure is still to settle is
  pending, and the timers of a connect callback have not been ended.
\<close>

definition wellFormed :: "state \<Rightarrow> bool" where
  "wellFormed s \<longleftrightarrow>
     (\<forall>p. count_list (owners s) p \<le> 1) \<and>
     (\<forall>p \<in> set (owners s). p < nextPromise s) \<and>
     (\<forall>p \<in> set (awaitedAll s). promises s p = Pending) \<and>
     (\<forall>ik \<in> set (requests s). fst ik < nextRequest s \<and> freshTimers (snd ik)) \<and>
     (\<forall>qr \<in> set (reactions s). fst qr < nextPromise s)"

section \<open>Where registry entries come from\<close>

text \<open>
  Every call of \<open>connect\<close> notifies the Status Reporter \<open>connecting\<close> first (line 130), so
  the \<open>StatusConnecting\<close> effects record the resources and credentials \<open>connect\<close> has
  been called with. \<open>tracked\<close>: every connect callback in flight stems from such a call.
  \<open>registryOk\<close>: every session stored has a non-empty handle and stems from such a call.
  \<open>grows\<close> relates a state to a later one: effects and requests are only added.
\<close>

fun connectRequested :: "state \<Rightarrow> pending \<Rightarrow> bool" where
  "connectRequested s (ConnectCallback fileUri c et st p) = (StatusConnecting fileUri c \<in> set (effects s))"
| "connectRequested s _ = True"

definition grows :: "state \<Rightarrow> state \<Rightarrow> bool" where
  "grows s t \<longleftrightarrow>
     (\<exists>es. effects t = effects s @ es) \<and>
     (\<exists>ks. requests t = requests s @ ks \<and> (\<forall>ik \<in> set ks. connectRequested t (snd ik)))"

definition tracked :: "state \<Rightarrow> bool" where
  "tracked s \<longleftrightarrow> (\<forall>ik \<in> set (requests s). connectRequested s (snd ik))"

definition registryOk :: "state \<Rightarrow> bool" where
  "registryOk s \<longleftrightarrow>
     (\<forall>k ci. own (connections s) k = Some ci \<longrightarrow>
        connectionId ci \<noteq> [] \<and> StatusConnecting k (credentials ci) \<in> set (effects s)) \<and>
     (\<forall>ci. proto (connections s) = Some ci \<longrightarrow>
        connectionId ci \<noteq> [] \<and> StatusConnecting ''__proto__'' (credentials ci) \<in> set (effects s))"

section \<open>Sample inputs\<close>

definition sampleConstants :: Constants where
  "sampleConstants =
     \<lparr>msgError = ''Error: '', msgOpenSqlFile = ''Open a SQL file'',
      msgChooseDatabaseNotConnected = ''Not connected''\<rparr>"

definition sampleClock :: "nat \<Rightarrow> int" where
  "sampleClock n = 10 * int n"

definition credsDb1 :: IConnectionCredentials where
  "credsDb1 = \<lparr>server = ''srv'', database = ''db1'', user = ''a'', password = ''pw''\<rparr>"

definition credsDb2 :: IConnectionCredentials where
  "credsDb2 = \<lparr>server = ''srv'', database = ''db2'', user = ''a'', password = ''pw''\<rparr>"

definition okResult :: ConnectionResult where
  "okResult = \<lparr>resultConnectionId = Some ''abc'', messages = []\<rparr>"

definition failResult :: ConnectionResult where
  "failResult = \<lparr>resultConnectionId = Some [], messages = ''Login failed''\<rparr>"

definition start :: state where
  "start = init sampleConstants sampleClock"

text \<open>
  \<open>connectedDoc1\<close>: \<open>doc1\<close> has been connected with the handle \<open>abc\<close>. \<open>busyDoc1\<close>: from
  there, \<open>disconnect\<close> and then \<open>connect\<close> have been called for \<open>doc1\<close> and neither request
  has been answered.
\<close>

definition connectedDoc1 :: state where
  "connectedDoc1 =
     (case run [Call_connect ''doc1'' credsDb1, Respond 0 (ConnectResult okResult)] start of
        Some s \<Rightarrow> s | None \<Rightarrow> start)"

definition busyDoc1 :: state where
  "busyDoc1 =
     (case run [Call_disconnect ''doc1'', Call_connect ''doc1'' credsDb2] connectedDoc1 of
        Some s \<Rightarrow> s | None \<Rightarrow> start)"

section \<open>The specification's wording, for comparison\<close>

text \<open>
  The Observability event as the specification words it: the first duration is the
  total elapsed time of the connect call (from the start \<open>t0\<close> of the extension timer
  to its end \<open>t3\<close>), the second the elapsed time of the round trip (from the start \<open>t1\<close>
  of the service timer to its end \<open>t2\<close>).
\<close>

definition spec_connectedEvent :: "int \<Rightarrow> int \<Rightarrow> int \<Rightarrow> int \<Rightarrow> effect" where
  "spec_connectedEvent t0 t1 t2 t3 = TelemetryEvent ''DatabaseConnected'' (t3 - t0) (t2 - t1)"

fun isTelemetryEvent :: "effect \<Rightarrow> bool" where
  "isTelemetryEvent (TelemetryEvent name e s) = True"
| "isTelemetryEvent _ = False"

definition telemetryEvents :: "state \<Rightarrow> effect list" where
  "telemetryEvents s = filter isTelemetryEvent (effects s)"

text \<open>The protocol requests in flight for a resource.\<close>

fun requestUri :: "pending \<Rightarrow> uri option" where
  "requestUri (DisconnectCallback fileUri p) = Some fileUri"
| "requestUri (ConnectCallback fileUri c et st p) = Some fileUri"
| "requestUri _ = None"

definition inFlight :: "state \<Rightarrow> uri \<Rightarrow> nat" where
  "inFlight s fileUri = length (filter (\<lambda>ik. requestUri (snd ik) = Some fileUri) (requests s))"

section \<open>The invariant is preserved\<close>

subsection \<open>Counting owners\<close>

lemma count_concat_filter:
  "count_list (concat (map f (filter P xs))) p + count_list (concat (map f (filter (\<lambda>x. \<not> P x) xs))) p
     = count_list (concat (map f xs)) p"
  by (induction xs) auto

lemma count_concat_filter_le:
  "count_list (concat (map f (filter P xs))) p \<le> count_list (concat (map f xs)) p"
  by (induction xs) auto

lemma count_concat_remove:
  "map_of xs i = Some k \<Longrightarrow>
   count_list (concat (map (\<lambda>ik. f (snd ik)) (filter (\<lambda>ik. fst ik \<noteq> i) xs))) p + count_list (f k) p
     \<le> count_list (concat (map (\<lambda>ik. f (snd ik)) xs)) p"
proof (induction xs)
  case Nil
  then show ?case by simp
next
  case (Cons x xs)
  show ?case
  proof (cases "fst x = i")
    case True
    with Cons.prems have "snd x = k" by (cases x) simp
    with True show ?thesis
      using count_concat_filter_le [of "\<lambda>ik. f (snd ik)" "\<lambda>ik. fst ik \<noteq> i" xs p] by simp
  next
    case False
    with Cons.prems have "map_of xs i = Some k" by (cases x) simp
    with Cons.IH False show ?thesis by simp
  qed
qed

lemma set_count: "set xs = {q. 0 < count_list xs q}"
proof -
  have "x \<in> set xs \<longleftrightarrow> 0 < count_list xs x" for x
    by (induction xs) auto
  then show ?thesis by blast
qed

lemma wellFormed_init: "wellFormed (init K clk)"
  by (simp add: wellFormed_def init_def owners_def awaitedAll_def)

lemma wellFormed_cong:
  "promises t = promises s \<Longrightarrow> nextPromise t = nextPromise s \<Longrightarrow> reactions t = reactions s \<Longrightarrow>
   microtasks t = microtasks s \<Longrightarrow> requests t = requests s \<Longrightarrow> nextRequest t = nextRequest s \<Longrightarrow>
   wellFormed t = wellFormed s"
  by (simp add: wellFormed_def owners_def awaitedAll_def)

lemma wellFormed_emit: "wellFormed s \<Longrightarrow> wellFormed (emit e s)"
  by (simp add: wellFormed_def emit_def owners_def awaitedAll_def)

lemma awaited_owner: "p \<in> set (awaitedAll s) \<Longrightarrow> p \<in> set (owners s)"
  by (simp add: owners_def)

lemma fresh_not_owner: "wellFormed s \<Longrightarrow> nextPromise s \<le> p \<Longrightarrow> p \<notin> set (owners s)"
  by (fastforce simp: wellFormed_def)



lemma wellFormed_connect: "wellFormed s \<Longrightarrow> wellFormed (snd (connect u c s))"
  apply (frule fresh_not_owner [of s "nextPromise s"], simp)
  apply (simp add: wellFormed_def connect_def newPromise_def newTimer_def hrtime_def emit_def sendRequest_def
         owners_def awaitedAll_def Let_def)
  apply (auto simp: less_Suc_eq count_list_0_iff)
  done

lemma wellFormed_onNewConnection: "wellFormed s \<Longrightarrow> wellFormed (snd (onNewConnection u s))"
  apply (frule fresh_not_owner [of s "nextPromise s"], simp)
  apply (simp add: wellFormed_def onNewConnection_def newPromise_def emit_def sendRequest_def
         owners_def awaitedAll_def Let_def)
  apply (auto simp: less_Suc_eq count_list_0_iff)
  done

lemma wellFormed_onCreateProfile: "wellFormed s \<Longrightarrow> wellFormed (snd (onCreateProfile s))"
  apply (frule fresh_not_owner [of s "nextPromise s"], simp)
  apply (simp add: wellFormed_def onCreateProfile_def newPromise_def emit_def sendRequest_def
         owners_def awaitedAll_def Let_def)
  apply (auto simp: less_Suc_eq count_list_0_iff)
  done

lemma wellFormed_onChooseDatabase: "wellFormed s \<Longrightarrow> wellFormed (onChooseDatabase u s)"
  apply (simp add: wellFormed_def onChooseDatabase_def emit_def sendRequest_def
         owners_def awaitedAll_def Let_def)
  apply (auto simp: less_Suc_eq)
  done

lemma wellFormed_onRemoveProfile: "wellFormed s \<Longrightarrow> wellFormed (onRemoveProfile s)"
  by (simp add: onRemoveProfile_def wellFormed_emit)

lemma wellFormed_resolve:
  assumes "wellFormed s" and "p \<notin> set (awaitedAll s)"
  shows "wellFormed (resolve p v s)"
proof (cases "promises s p = Pending")
  case False
  then show ?thesis using assms by (simp add: resolve_def)
next
  case True
  let ?t = "resolve p v s"
  have mv: "\<And>q. count_list (concat (map reactionPromise (map snd (filter (\<lambda>qr. fst qr = p) (reactions s))))) q
       + count_list (concat (map (\<lambda>qr. reactionPromise (snd qr)) (filter (\<lambda>qr. fst qr \<noteq> p) (reactions s)))) q
       = count_list (concat (map (\<lambda>qr. reactionPromise (snd qr)) (reactions s))) q"
    using count_concat_filter [of "\<lambda>qr. reactionPromise (snd qr)" "\<lambda>qr. fst qr = p" "reactions s"]
    by (simp add: comp_def)
  have t_simps: "requests ?t = requests s"
      "reactions ?t = filter (\<lambda>qr. fst qr \<noteq> p) (reactions s)"
      "microtasks ?t = microtasks s @ map snd (filter (\<lambda>qr. fst qr = p) (reactions s))"
      "nextPromise ?t = nextPromise s" "nextRequest ?t = nextRequest s"
      "promises ?t = (promises s)(p := Resolved v)"
    using True by (simp_all add: resolve_def)
  have cnta: "count_list (awaitedAll ?t) q = count_list (awaitedAll s) q" for q
    unfolding awaitedAll_def t_simps map_append concat_append count_list_append
    using mv [of q] by linarith
  have cnt: "count_list (owners ?t) q = count_list (owners s) q" for q
    unfolding owners_def count_list_append cnta t_simps ..
  have sets: "set (owners ?t) = set (owners s)" "set (awaitedAll ?t) = set (awaitedAll s)"
    unfolding set_count [of "owners ?t"] set_count [of "awaitedAll ?t"]
      set_count [of "owners s"] set_count [of "awaitedAll s"] cnt cnta
    by (rule refl)+
  have "\<forall>p. count_list (owners ?t) p \<le> 1"
    using assms(1) by (simp add: cnt wellFormed_def)
  moreover have "\<forall>q \<in> set (owners ?t). q < nextPromise ?t"
    using assms(1) by (simp add: sets wellFormed_def t_simps)
  moreover have "\<forall>q \<in> set (awaitedAll ?t). promises ?t q = Pending"
    using assms by (auto simp: sets wellFormed_def t_simps)
  moreover have "\<forall>ik \<in> set (requests ?t). fst ik < nextRequest ?t \<and> freshTimers (snd ik)"
    using assms(1) by (simp add: wellFormed_def t_simps)
  moreover have "\<forall>qr \<in> set (reactions ?t). fst qr < nextPromise ?t"
    using assms(1) by (simp add: wellFormed_def t_simps)
  ultimately show ?thesis
    unfolding wellFormed_def by blast
qed


lemma wellFormed_reject:
  assumes "wellFormed s" and "p \<notin> set (awaitedAll s)"
  shows "wellFormed (reject p why s)"
proof (cases "promises s p = Pending")
  case False
  then show ?thesis using assms by (simp add: reject_def)
next
  case True
  let ?t = "reject p why s"
  have t_simps: "requests ?t = requests s"
      "reactions ?t = filter (\<lambda>qr. fst qr \<noteq> p) (reactions s)"
      "microtasks ?t = microtasks s"
      "nextPromise ?t = nextPromise s" "nextRequest ?t = nextRequest s"
      "promises ?t = (promises s)(p := Rejected why)"
    using True by (simp_all add: reject_def)
  have le: "count_list (concat (map (\<lambda>qr. reactionPromise (snd qr)) (filter (\<lambda>qr. fst qr \<noteq> p) (reactions s)))) q
       \<le> count_list (concat (map (\<lambda>qr. reactionPromise (snd qr)) (reactions s))) q" for q
    by (rule count_concat_filter_le)
  have cnta: "count_list (awaitedAll ?t) q \<le> count_list (awaitedAll s) q" for q
    unfolding awaitedAll_def t_simps count_list_append using le [of q] by linarith
  have cnt: "count_list (owners ?t) q \<le> count_list (owners s) q" for q
    unfolding owners_def count_list_append t_simps using cnta [of q] by linarith
  have sets: "set (owners ?t) \<subseteq> set (owners s)" "set (awaitedAll ?t) \<subseteq> set (awaitedAll s)"
    unfolding set_count [of "owners ?t"] set_count [of "awaitedAll ?t"]
      set_count [of "owners s"] set_count [of "awaitedAll s"]
    using cnt cnta by (auto intro: less_le_trans)
  have "\<forall>p. count_list (owners ?t) p \<le> 1"
    using assms(1) cnt by (auto simp: wellFormed_def intro: order_trans)
  moreover have "\<forall>q \<in> set (owners ?t). q < nextPromise ?t"
    using assms(1) sets by (auto simp: wellFormed_def t_simps)
  moreover have "\<forall>q \<in> set (awaitedAll ?t). promises ?t q = Pending"
    using assms sets by (auto simp: wellFormed_def t_simps)
  moreover have "\<forall>ik \<in> set (requests ?t). fst ik < nextRequest ?t \<and> freshTimers (snd ik)"
    using assms(1) by (simp add: wellFormed_def t_simps)
  moreover have "\<forall>qr \<in> set (reactions ?t). fst qr < nextPromise ?t"
    using assms(1) by (simp add: wellFormed_def t_simps)
  ultimately show ?thesis
    unfolding wellFormed_def by blast
qed

lemma wellFormed_disconnect: "wellFormed s \<Longrightarrow> wellFormed (snd (disconnect u s))"
proof -
  assume w: "wellFormed s"
  define s1 where "s1 = snd (newPromise s)"
  define s2 where "s2 = (if isConnected s1 u
      then sendRequest (\<lambda>i. SendDisconnectRequest i u) (DisconnectCallback u (nextPromise s)) s1 else s1)"
  have d: "snd (disconnect u s) = resolve (nextPromise s) True s2"
    by (simp add: disconnect_def s2_def s1_def newPromise_def)
  have fresh: "nextPromise s \<notin> set (owners s)"
    using w by (rule fresh_not_owner) simp
  then have c0: "count_list (owners s) (nextPromise s) = 0"
    by (simp add: count_list_0_iff)
  have "wellFormed s2"
    using w c0 unfolding s2_def s1_def
    by (auto simp: wellFormed_def newPromise_def emit_def sendRequest_def owners_def
        awaitedAll_def less_Suc_eq)
  moreover have "nextPromise s \<notin> set (awaitedAll s2)"
    using fresh unfolding s2_def s1_def
    by (auto simp: newPromise_def emit_def sendRequest_def owners_def awaitedAll_def)
  ultimately show ?thesis
    unfolding d by (rule wellFormed_resolve)
qed

lemma resolve_fields:
  "nextPromise (resolve p v s) = nextPromise s"
  "nextRequest (resolve p v s) = nextRequest s"
  "requests (resolve p v s) = requests s"
  "connections (resolve p v s) = connections s"
  "effects (resolve p v s) = effects s"
  "q \<noteq> p \<Longrightarrow> promises (resolve p v s) q = promises s q"
  by (simp_all add: resolve_def)

lemma resolve_counts:
  "count_list (awaitedAll (resolve p v s)) q = count_list (awaitedAll s) q"
  "count_list (owners (resolve p v s)) q = count_list (owners s) q"
proof -
  have mv: "count_list (concat (map reactionPromise (map snd (filter (\<lambda>qr. fst qr = p) (reactions s))))) q
       + count_list (concat (map (\<lambda>qr. reactionPromise (snd qr)) (filter (\<lambda>qr. fst qr \<noteq> p) (reactions s)))) q
       = count_list (concat (map (\<lambda>qr. reactionPromise (snd qr)) (reactions s))) q"
    using count_concat_filter [of "\<lambda>qr. reactionPromise (snd qr)" "\<lambda>qr. fst qr = p" "reactions s"]
    by (simp add: comp_def)
  show a: "count_list (awaitedAll (resolve p v s)) q = count_list (awaitedAll s) q"
  proof (cases "promises s p = Pending")
    case True
    then have t_simps: "requests (resolve p v s) = requests s"
      "reactions (resolve p v s) = filter (\<lambda>qr. fst qr \<noteq> p) (reactions s)"
      "microtasks (resolve p v s) = microtasks s @ map snd (filter (\<lambda>qr. fst qr = p) (reactions s))"
      by (simp_all add: resolve_def)
    show ?thesis
      unfolding awaitedAll_def t_simps map_append concat_append count_list_append
      using mv by linarith
  next
    case False
    then show ?thesis by (simp add: resolve_def)
  qed
  show "count_list (owners (resolve p v s)) q = count_list (owners s) q"
    unfolding owners_def count_list_append a resolve_fields ..
qed

lemma resolve_owners: "set (owners (resolve p v s)) = set (owners s)"
  unfolding set_count [of "owners (resolve p v s)"] set_count [of "owners s"] resolve_counts ..

lemma disconnect_frame:
  "fst (disconnect u s) = nextPromise s"
  "nextPromise (snd (disconnect u s)) = Suc (nextPromise s)"
  "set (owners (snd (disconnect u s))) \<subseteq> insert (nextPromise s) (set (owners s))"
  "q \<noteq> nextPromise s \<Longrightarrow> promises (snd (disconnect u s)) q = promises s q"
proof -
  define s2 where "s2 = (if isConnected (snd (newPromise s)) u
      then sendRequest (\<lambda>i. SendDisconnectRequest i u) (DisconnectCallback u (nextPromise s))
             (snd (newPromise s)) else snd (newPromise s))"
  have d: "disconnect u s = (nextPromise s, resolve (nextPromise s) True s2)"
    by (simp add: disconnect_def s2_def newPromise_def)
  show "fst (disconnect u s) = nextPromise s" by (simp add: d)
  show "nextPromise (snd (disconnect u s)) = Suc (nextPromise s)"
    by (simp add: d resolve_fields) (simp add: s2_def newPromise_def sendRequest_def emit_def)
  have "set (owners s2) \<subseteq> insert (nextPromise s) (set (owners s))"
    by (auto simp: s2_def newPromise_def sendRequest_def emit_def owners_def awaitedAll_def)
  then show "set (owners (snd (disconnect u s))) \<subseteq> insert (nextPromise s) (set (owners s))"
    by (simp add: d resolve_owners)
  show "promises (snd (disconnect u s)) q = promises s q" if "q \<noteq> nextPromise s"
    using that by (simp add: d resolve_fields) (simp add: s2_def newPromise_def sendRequest_def emit_def)
qed

lemma connect_fields:
  "fst (connect u c s) = nextPromise s"
  "nextPromise (snd (connect u c s)) = Suc (nextPromise s)"
  "promises (snd (connect u c s)) = (promises s)(nextPromise s := Pending)"
  "connections (snd (connect u c s)) = connections s"
  "reactions (snd (connect u c s)) = reactions s"
  "microtasks (snd (connect u c s)) = microtasks s"
  "requests (snd (connect u c s)) = requests s @
     [(nextRequest s, ConnectCallback u c
        \<lparr>startTime = clock s (clockReads s), elapsed = None\<rparr>
        \<lparr>startTime = clock s (Suc (clockReads s)), elapsed = None\<rparr> (nextPromise s))]"
  by (simp_all add: connect_def newPromise_def newTimer_def hrtime_def sendRequest_def emit_def
      Let_def)

lemma connect_owners:
  "set (owners (snd (connect u c s))) = insert (nextPromise s) (set (owners s))"
  unfolding owners_def awaitedAll_def connect_fields by auto

lemma owners_add_reaction:
  "count_list (owners (s\<lparr>reactions := reactions s @ [(q, r)]\<rparr>)) p
     = count_list (owners s) p + count_list (reactionPromise r) p"
  "count_list (awaitedAll (s\<lparr>reactions := reactions s @ [(q, r)]\<rparr>)) p
     = count_list (awaitedAll s) p + count_list (reactionPromise r) p"
  "count_list (owners (s\<lparr>microtasks := microtasks s @ [r]\<rparr>)) p
     = count_list (owners s) p + count_list (reactionPromise r) p"
  "count_list (awaitedAll (s\<lparr>microtasks := microtasks s @ [r]\<rparr>)) p
     = count_list (awaitedAll s) p + count_list (reactionPromise r) p"
  by (simp_all add: owners_def awaitedAll_def)

lemma wellFormed_intro:
  assumes "wellFormed s"
    and "\<And>p. count_list (owners t) p = count_list (owners s) p + count_list X p"
    and "\<And>p. count_list (awaitedAll t) p = count_list (awaitedAll s) p + count_list X p"
    and "\<And>p. count_list X p \<le> 1"
    and "\<forall>p \<in> set X. p \<notin> set (owners s) \<and> p < nextPromise s \<and> promises s p = Pending"
    and "promises t = promises s" and "nextPromise t = nextPromise s"
    and "\<forall>ik \<in> set (requests t). fst ik < nextRequest t \<and> freshTimers (snd ik)"
    and "\<forall>qr \<in> set (reactions t). fst qr < nextPromise t"
  shows "wellFormed t"
proof -
  have so: "set (owners t) = set (owners s) \<union> set X"
    unfolding set_count [of "owners t"] set_count [of "owners s"] set_count [of X] assms(2)
    by auto
  have sa: "set (awaitedAll t) = set (awaitedAll s) \<union> set X"
    unfolding set_count [of "awaitedAll t"] set_count [of "awaitedAll s"] set_count [of X] assms(3)
    by auto
  have "count_list (owners t) p \<le> 1" for p
  proof (cases "p \<in> set X")
    case True
    with assms(5) have "count_list (owners s) p = 0" by (simp add: count_list_0_iff)
    then show ?thesis using assms(4) [of p] by (simp add: assms(2))
  next
    case False
    then have "count_list X p = 0" by (simp add: count_list_0_iff)
    then show ?thesis using assms(1) by (simp add: assms(2) wellFormed_def)
  qed
  moreover have "\<forall>p \<in> set (owners t). p < nextPromise t"
    using assms(1,5) by (auto simp: so assms(7) wellFormed_def)
  moreover have "\<forall>p \<in> set (awaitedAll t). promises t p = Pending"
    using assms(1,5) by (auto simp: sa assms(6) wellFormed_def)
  ultimately show ?thesis
    using assms(8,9) unfolding wellFormed_def by blast
qed

lemma wellFormed_promise_then:
  assumes "wellFormed s" and "q < nextPromise s"
    and "\<forall>p \<in> set (reactionPromise r). p \<notin> set (owners s) \<and> p < nextPromise s \<and> promises s p = Pending"
  shows "wellFormed (promise_then q r s)"
proof -
  have one: "count_list (reactionPromise r) p \<le> 1" for p
    by (cases r) simp_all
  show ?thesis
  proof (cases "promises s q")
    case Pending
    then have t: "promise_then q r s = s\<lparr>reactions := reactions s @ [(q, r)]\<rparr>"
      by (simp add: promise_then_def)
    show ?thesis
      unfolding t
    proof (rule wellFormed_intro [OF assms(1) owners_add_reaction(1) owners_add_reaction(2) one assms(3)])
      show "\<forall>ik\<in>set (requests (s\<lparr>reactions := reactions s @ [(q, r)]\<rparr>)).
         fst ik < nextRequest (s\<lparr>reactions := reactions s @ [(q, r)]\<rparr>) \<and> freshTimers (snd ik)"
        using assms(1) by (simp add: wellFormed_def)
      show "\<forall>qr\<in>set (reactions (s\<lparr>reactions := reactions s @ [(q, r)]\<rparr>)).
         fst qr < nextPromise (s\<lparr>reactions := reactions s @ [(q, r)]\<rparr>)"
        using assms(1,2) by (simp add: wellFormed_def)
    qed simp_all
  next
    case (Resolved v)
    then have t: "promise_then q r s = s\<lparr>microtasks := microtasks s @ [r]\<rparr>"
      by (simp add: promise_then_def)
    show ?thesis
      unfolding t
    proof (rule wellFormed_intro [OF assms(1) owners_add_reaction(3) owners_add_reaction(4) one assms(3)])
      show "\<forall>ik\<in>set (requests (s\<lparr>microtasks := microtasks s @ [r]\<rparr>)).
         fst ik < nextRequest (s\<lparr>microtasks := microtasks s @ [r]\<rparr>) \<and> freshTimers (snd ik)"
        using assms(1) by (simp add: wellFormed_def)
      show "\<forall>qr\<in>set (reactions (s\<lparr>microtasks := microtasks s @ [r]\<rparr>)).
         fst qr < nextPromise (s\<lparr>microtasks := microtasks s @ [r]\<rparr>)"
        using assms(1) by (simp add: wellFormed_def)
    qed simp_all
  next
    case (Rejected why)
    then show ?thesis using assms(1) by (simp add: promise_then_def)
  qed
qed

lemma wellFormed_shrink:
  assumes "wellFormed s"
    and "\<And>p. count_list (owners t) p \<le> count_list (owners s) p"
    and "\<And>p. count_list (awaitedAll t) p \<le> count_list (awaitedAll s) p"
    and "promises t = promises s" and "nextPromise t = nextPromise s"
    and "\<forall>ik \<in> set (requests t). fst ik < nextRequest t \<and> freshTimers (snd ik)"
    and "\<forall>qr \<in> set (reactions t). fst qr < nextPromise t"
  shows "wellFormed t"
proof -
  have so: "set (owners t) \<subseteq> set (owners s)"
    unfolding set_count [of "owners t"] set_count [of "owners s"]
    using assms(2) by (auto intro: less_le_trans)
  have sa: "set (awaitedAll t) \<subseteq> set (awaitedAll s)"
    unfolding set_count [of "awaitedAll t"] set_count [of "awaitedAll s"]
    using assms(3) by (auto intro: less_le_trans)
  have "count_list (owners t) p \<le> 1" for p
    using assms(1) assms(2) [of p] by (auto simp: wellFormed_def intro: order_trans)
  moreover have "\<forall>p \<in> set (owners t). p < nextPromise t"
    using assms(1) so by (auto simp: assms(5) wellFormed_def)
  moreover have "\<forall>p \<in> set (awaitedAll t). promises t p = Pending"
    using assms(1) sa by (auto simp: assms(4) wellFormed_def)
  ultimately show ?thesis
    using assms(6,7) unfolding wellFormed_def by blast
qed

lemma mem_count: "p \<in> set xs \<longleftrightarrow> 0 < count_list xs p"
  using set_count [of xs] by blast

lemma remove_request:
  fixes s i
  defines "t \<equiv> s\<lparr>requests := filter (\<lambda>ik. fst ik \<noteq> i) (requests s)\<rparr>"
  assumes w: "wellFormed s" and look: "map_of (requests s) i = Some k"
  shows "wellFormed t"
    and "\<forall>p \<in> set (settledEarly k @ awaited k). p \<notin> set (owners t) \<and> p < nextPromise s"
    and "\<forall>p \<in> set (awaited k). promises s p = Pending"
    and "freshTimers k"
proof -
  have t_simps: "requests t = filter (\<lambda>ik. fst ik \<noteq> i) (requests s)"
      "reactions t = reactions s" "microtasks t = microtasks s" "promises t = promises s"
      "nextPromise t = nextPromise s" "nextRequest t = nextRequest s"
    by (simp_all add: t_def)
  have mem: "(i, k) \<in> set (requests s)"
    using look by (rule map_of_SomeD)
  have ca: "count_list (awaitedAll t) p + count_list (awaited k) p \<le> count_list (awaitedAll s) p" for p
    unfolding awaitedAll_def t_simps count_list_append
    using count_concat_remove [OF look, of awaited p] by linarith
  have co: "count_list (owners t) p + (count_list (settledEarly k) p + count_list (awaited k) p)
       \<le> count_list (owners s) p" for p
    unfolding owners_def t_simps count_list_append
    using count_concat_remove [OF look, of settledEarly p] ca [of p] by linarith
  show "wellFormed t"
  proof (rule wellFormed_shrink [OF w])
    show "count_list (owners t) p \<le> count_list (owners s) p" for p
      using co [of p] by linarith
    show "count_list (awaitedAll t) p \<le> count_list (awaitedAll s) p" for p
      using ca [of p] by linarith
    show "\<forall>ik\<in>set (requests t). fst ik < nextRequest t \<and> freshTimers (snd ik)"
      using w by (simp add: wellFormed_def t_simps)
    show "\<forall>qr\<in>set (reactions t). fst qr < nextPromise t"
      using w by (simp add: wellFormed_def t_simps)
  qed (simp_all add: t_simps)
  show "\<forall>p \<in> set (settledEarly k @ awaited k). p \<notin> set (owners t) \<and> p < nextPromise s"
  proof
    fix p assume p: "p \<in> set (settledEarly k @ awaited k)"
    then have pos: "0 < count_list (settledEarly k) p + count_list (awaited k) p"
      by (simp add: mem_count)
    moreover have "count_list (owners s) p \<le> 1"
      using w by (simp add: wellFormed_def)
    ultimately have "count_list (owners t) p = 0"
      using co [of p] by linarith
    then have "p \<notin> set (owners t)" by (simp add: count_list_0_iff)
    moreover have "0 < count_list (owners s) p"
      using pos co [of p] by linarith
    then have "p \<in> set (owners s)" by (simp add: mem_count)
    then have "p < nextPromise s"
      using w by (simp add: wellFormed_def)
    ultimately show "p \<notin> set (owners t) \<and> p < nextPromise s" ..
  qed
  show "\<forall>p \<in> set (awaited k). promises s p = Pending"
  proof
    fix p assume "p \<in> set (awaited k)"
    then have "0 < count_list (awaited k) p" by (simp add: mem_count)
    then have "0 < count_list (awaitedAll s) p"
      using ca [of p] by linarith
    then have "p \<in> set (awaitedAll s)" by (simp add: mem_count)
    then show "promises s p = Pending"
      using w by (simp add: wellFormed_def)
  qed
  have "\<forall>ik \<in> set (requests s). freshTimers (snd ik)"
    using w by (simp add: wellFormed_def)
  then have "freshTimers (snd (i, k))" using mem by (rule bspec)
  then show "freshTimers k" by simp
qed

lemma pop_microtask:
  fixes s rs
  defines "t \<equiv> s\<lparr>microtasks := rs\<rparr>"
  assumes w: "wellFormed s" and mt: "microtasks s = r # rs"
  shows "wellFormed t"
    and "\<forall>p \<in> set (reactionPromise r). p \<notin> set (owners t) \<and> p < nextPromise s \<and> promises s p = Pending"
proof -
  have t_simps: "requests t = requests s"
      "reactions t = reactions s" "microtasks t = rs" "promises t = promises s"
      "nextPromise t = nextPromise s" "nextRequest t = nextRequest s"
    by (simp_all add: t_def)
  have ca: "count_list (awaitedAll t) p + count_list (reactionPromise r) p = count_list (awaitedAll s) p" for p
    unfolding awaitedAll_def t_simps mt by simp
  have co: "count_list (owners t) p + count_list (reactionPromise r) p = count_list (owners s) p" for p
    unfolding owners_def t_simps count_list_append using ca [of p] by linarith
  show "wellFormed t"
  proof (rule wellFormed_shrink [OF w])
    show "count_list (owners t) p \<le> count_list (owners s) p" for p
      using co [of p] by linarith
    show "count_list (awaitedAll t) p \<le> count_list (awaitedAll s) p" for p
      using ca [of p] by linarith
    show "\<forall>ik\<in>set (requests t). fst ik < nextRequest t \<and> freshTimers (snd ik)"
      using w by (simp add: wellFormed_def t_simps)
    show "\<forall>qr\<in>set (reactions t). fst qr < nextPromise t"
      using w by (simp add: wellFormed_def t_simps)
  qed (simp_all add: t_simps)
  show "\<forall>p \<in> set (reactionPromise r). p \<notin> set (owners t) \<and> p < nextPromise s \<and> promises s p = Pending"
  proof
    fix p assume p: "p \<in> set (reactionPromise r)"
    then have pos: "0 < count_list (reactionPromise r) p"
      by (simp add: mem_count)
    moreover have "count_list (owners s) p \<le> 1"
      using w by (simp add: wellFormed_def)
    ultimately have "count_list (owners t) p = 0"
      using co [of p] by linarith
    then have "p \<notin> set (owners t)" by (simp add: count_list_0_iff)
    moreover have "0 < count_list (awaitedAll s) p"
      using pos ca [of p] by linarith
    then have a: "p \<in> set (awaitedAll s)" by (simp add: mem_count)
    then have "promises s p = Pending"
      using w by (simp add: wellFormed_def)
    moreover have "p < nextPromise s"
      using w awaited_owner [OF a] by (simp add: wellFormed_def)
    ultimately show "p \<notin> set (owners t) \<and> p < nextPromise s \<and> promises s p = Pending" by simp
  qed
qed

lemma ctrl_simps:
  "awaitedAll (emit e s) = awaitedAll s" "owners (emit e s) = owners s"
  "wellFormed (emit e s) = wellFormed s"
  "awaitedAll (s\<lparr>clockReads := n\<rparr>) = awaitedAll s" "owners (s\<lparr>clockReads := n\<rparr>) = owners s"
  "wellFormed (s\<lparr>clockReads := n\<rparr>) = wellFormed s"
  "awaitedAll (s\<lparr>connections := g\<rparr>) = awaitedAll s" "owners (s\<lparr>connections := g\<rparr>) = owners s"
  "wellFormed (s\<lparr>connections := g\<rparr>) = wellFormed s"
  by (simp_all add: wellFormed_def owners_def awaitedAll_def emit_def)

lemma wellFormed_disconnectCallback:
  "wellFormed s \<Longrightarrow> p \<notin> set (owners s) \<Longrightarrow> wellFormed (disconnectCallback u p b s)"
  unfolding disconnectCallback_def Let_def
  by (rule wellFormed_resolve) (auto simp: ctrl_simps dest: awaited_owner)

lemma wellFormed_connectCallback:
  assumes "wellFormed s" and "p \<notin> set (owners s)"
  shows "wellFormed (connectCallback u c et st p r s)"
proof -
  have na: "p \<notin> set (awaitedAll s)"
    using assms(2) awaited_owner by blast
  show ?thesis
    using assms(1) na
    by (auto simp: connectCallback_def Timer_end_def getDuration_def hrtime_def Let_def ctrl_simps
        split: option.splits intro!: wellFormed_resolve wellFormed_reject)
qed

lemma wellFormed_createProfileCallback:
  "wellFormed s \<Longrightarrow> p \<notin> set (owners s) \<Longrightarrow> wellFormed (createProfileCallback p b s)"
  unfolding createProfileCallback_def
  by (auto intro!: wellFormed_resolve dest: awaited_owner)

lemma wellFormed_chooseDatabaseCallback:
  assumes "wellFormed s"
  shows "wellFormed (chooseDatabaseCallback u c s)"
proof (cases c)
  case None
  then show ?thesis using assms by (simp add: chooseDatabaseCallback_def)
next
  case (Some a)
  have "wellFormed (promise_then (fst (disconnect u s)) (ThenConnect u a) (snd (disconnect u s)))"
    by (rule wellFormed_promise_then) (simp_all add: wellFormed_disconnect assms disconnect_frame)
  then show ?thesis
    by (simp add: chooseDatabaseCallback_def Some split_beta)
qed

lemma wellFormed_newConnectionCallback:
  assumes "wellFormed s" and "p \<notin> set (owners s)" and "p < nextPromise s" and "promises s p = Pending"
  shows "wellFormed (newConnectionCallback u p c s)"
proof (cases c)
  case None
  then show ?thesis using assms by (simp add: newConnectionCallback_def)
next
  case (Some a)
  have ne: "p \<noteq> nextPromise s" using assms(3) by simp
  have "p \<notin> set (owners (snd (disconnect u s)))"
    using disconnect_frame(3) [of u s] assms(2) ne by blast
  then have "wellFormed (promise_then (fst (disconnect u s)) (ThenConnectAndResolve u a p)
      (snd (disconnect u s)))"
    using assms ne by (intro wellFormed_promise_then) (simp_all add: wellFormed_disconnect disconnect_frame)
  then show ?thesis
    by (simp add: newConnectionCallback_def Some split_beta)
qed

lemma wellFormed_runReaction:
  assumes "wellFormed s"
    and "\<forall>p \<in> set (reactionPromise r). p \<notin> set (owners s) \<and> p < nextPromise s \<and> promises s p = Pending"
  shows "wellFormed (runReaction r s)"
proof (cases r)
  case (ThenConnect u c)
  then show ?thesis using assms(1) by (simp add: wellFormed_connect)
next
  case (ThenConnectAndResolve u c p)
  with assms(2) have p: "p \<notin> set (owners s)" "p < nextPromise s" "promises s p = Pending"
    by simp_all
  then have ne: "p \<noteq> nextPromise s" by simp
  have "wellFormed (promise_then (fst (connect u c s)) (ThenResolve p) (snd (connect u c s)))"
    using assms(1) p ne
    by (intro wellFormed_promise_then) (simp_all add: wellFormed_connect connect_fields connect_owners)
  then show ?thesis
    by (simp add: ThenConnectAndResolve split_beta)
next
  case (ThenResolve p)
  with assms(2) have "p \<notin> set (awaitedAll s)"
    using awaited_owner by auto
  then show ?thesis
    using assms(1) by (simp add: ThenResolve wellFormed_resolve)
qed

lemma wellFormed_runCallback:
  assumes w: "wellFormed s" and look: "map_of (requests s) i = Some k"
    and run: "runCallback k r (s\<lparr>requests := filter (\<lambda>ik. fst ik \<noteq> i) (requests s)\<rparr>) = Some s1"
  shows "wellFormed s1"
proof -
  note rm = remove_request [OF w look]
  show ?thesis
  proof (cases k)
    case (DisconnectCallback u p)
    with run obtain b where "r = DisconnectResult b" and
      "s1 = disconnectCallback u p b (s\<lparr>requests := filter (\<lambda>ik. fst ik \<noteq> i) (requests s)\<rparr>)"
      by (cases r) auto
    then show ?thesis
      using rm(1) rm(2) DisconnectCallback by (simp add: wellFormed_disconnectCallback)
  next
    case (ConnectCallback u c et st p)
    with run obtain x where "r = ConnectResult x" and
      "s1 = connectCallback u c et st p x (s\<lparr>requests := filter (\<lambda>ik. fst ik \<noteq> i) (requests s)\<rparr>)"
      by (cases r) auto
    then show ?thesis
      using rm(1) rm(2) ConnectCallback by (simp add: wellFormed_connectCallback)
  next
    case (ChooseDatabaseCallback u)
    with run obtain x where "r = PickedCredentials x" and
      "s1 = chooseDatabaseCallback u x (s\<lparr>requests := filter (\<lambda>ik. fst ik \<noteq> i) (requests s)\<rparr>)"
      by (cases r) auto
    then show ?thesis
      using rm(1) by (simp add: wellFormed_chooseDatabaseCallback)
  next
    case (NewConnectionCallback u p)
    with run obtain x where "r = PickedCredentials x" and
      "s1 = newConnectionCallback u p x (s\<lparr>requests := filter (\<lambda>ik. fst ik \<noteq> i) (requests s)\<rparr>)"
      by (cases r) auto
    then show ?thesis
      using rm(1) rm(2) rm(3) NewConnectionCallback by (simp add: wellFormed_newConnectionCallback)
  next
    case (CreateProfileCallback p)
    with run obtain b where "r = SavedProfile b" and
      "s1 = createProfileCallback p b (s\<lparr>requests := filter (\<lambda>ik. fst ik \<noteq> i) (requests s)\<rparr>)"
      by (cases r) auto
    then show ?thesis
      using rm(1) rm(2) CreateProfileCallback by (simp add: wellFormed_createProfileCallback)
  qed
qed

lemma wellFormed_step:
  assumes "wellFormed s" and "step e s = Some s1"
  shows "wellFormed s1"
proof (cases e)
  case (Respond i r)
  with assms(2) obtain k where "map_of (requests s) i = Some k"
    and "runCallback k r (s\<lparr>requests := filter (\<lambda>ik. fst ik \<noteq> i) (requests s)\<rparr>) = Some s1"
    by (auto split: if_splits option.splits)
  then show ?thesis using assms(1) by (auto intro: wellFormed_runCallback)
next
  case RunMicrotask
  with assms(2) obtain r rs where "microtasks s = r # rs"
    and "s1 = runReaction r (s\<lparr>microtasks := rs\<rparr>)"
    by (auto split: list.splits)
  then show ?thesis
    using pop_microtask [OF assms(1), of r rs] by (simp add: wellFormed_runReaction)
qed (use assms in \<open>auto simp: wellFormed_connect wellFormed_disconnect onDisconnect_def wellFormed_onChooseDatabase
      wellFormed_onNewConnection wellFormed_onCreateProfile wellFormed_onRemoveProfile\<close>)

lemma wellFormed_run: "wellFormed s \<Longrightarrow> run evs s = Some s1 \<Longrightarrow> wellFormed s1"
proof (induction evs arbitrary: s)
  case Nil
  then show ?case by simp
next
  case (Cons e evs)
  then show ?case by (auto split: option.splits dest: wellFormed_step)
qed

lemma wellFormed_reachable: "run evs (init K clk) = Some s \<Longrightarrow> wellFormed s"
  using wellFormed_init by (rule wellFormed_run)

section \<open>Answers to a connection request\<close>

lemma pending_connect_facts:
  assumes "wellFormed s" and "map_of (requests s) i = Some (ConnectCallback fileUri creds et st p)"
  shows "promises s p = Pending" and "elapsed et = None" and "elapsed st = None"
  using remove_request(3,4) [OF assms] by simp_all

lemma step_Respond:
  "microtasks s = [] \<Longrightarrow> map_of (requests s) i = Some k \<Longrightarrow>
   step (Respond i r) s = runCallback k r (s\<lparr>requests := filter (\<lambda>ik. fst ik \<noteq> i) (requests s)\<rparr>)"
  by simp

lemma connectCallback_failure:
  assumes "validConnectionId result = None" and "elapsed st = None" and "promises s p = Pending"
  shows "promises (connectCallback fileUri creds et st p result s) p = Rejected None"
    and "connections (connectCallback fileUri creds et st p result s) = connections s"
    and "effects (connectCallback fileUri creds et st p result s) =
           effects s @ [ShowErrorMsg (msgError (constants s) @ messages result),
                        StatusConnectError fileUri creds (messages result)]"
  using assms
  by (simp_all add: connectCallback_def Timer_end_def hrtime_def emit_def reject_def Let_def)

lemma connectCallback_success:
  assumes "validConnectionId result = Some cid" and "elapsed st = None" and "elapsed et = None"
    and "promises s p = Pending"
  shows "promises (connectCallback fileUri creds et st p result s) p = Resolved True"
    and "connections (connectCallback fileUri creds et st p result s) =
           setProperty fileUri \<lparr>connectionId = cid, credentials = creds\<rparr> (connections s)"
    and "effects (connectCallback fileUri creds et st p result s) =
           effects s @ [StatusConnectSuccess fileUri creds,
             TelemetryEvent ''DatabaseConnected''
               ((clock s (Suc (clockReads s)) - startTime et) - (clock s (clockReads s) - startTime st))
               (clock s (clockReads s) - startTime st)]"
  using assms
  by (simp_all add: connectCallback_def Timer_end_def getDuration_def hrtime_def emit_def
      resolve_def Let_def)

lemmas eval_defs =
  start_def init_def sampleClock_def sampleConstants_def credsDb1_def credsDb2_def okResult_def
  failResult_def connect_def disconnect_def onDisconnect_def onChooseDatabase_def
  onNewConnection_def onCreateProfile_def onRemoveProfile_def connectCallback_def
  disconnectCallback_def chooseDatabaseCallback_def newConnectionCallback_def
  createProfileCallback_def newPromise_def resolve_def reject_def promise_then_def
  sendRequest_def emit_def hrtime_def newTimer_def Timer_end_def getDuration_def
  validConnectionId_def isConnected_def hasProperty_def inherited_def objectPrototypeKeys_def
  setProperty_def deleteProperty_def getCredentials_def connectedDoc1_def busyDoc1_def
  Let_def

text \<open>
  C1, as the code has it. For every connect call whose answer carries a non-empty
  handle, in any state the manager can reach: the answer is processed, the promise of
  the call is resolved with \<open>true\<close>, and exactly one Observability event is emitted,
  after the Status Reporter's \<open>connectSuccess\<close>. Its \<open>serviceConnectionTime\<close> is the time
  from the start of the service timer to the answer (the round trip). Its
  \<open>extensionConnectionTime\<close> is the time from the start of the extension timer to its end
  \<^emph>\<open>minus\<close> the round trip, that is the client-side overhead and not the total elapsed
  time (line 163). By \<open>connect_fields\<close> the two timers of the callback are started by
  the connect call, the extension timer first.
\<close>

theorem connect_telemetry:
  assumes reach: "run evs (init K clk) = Some s"
    and pend: "map_of (requests s) i = Some (ConnectCallback fileUri creds et st p)"
    and idle: "microtasks s = []"
    and valid: "validConnectionId result = Some cid"
  shows "\<exists>s1. step (Respond i (ConnectResult result)) s = Some s1 \<and>
           promises s1 p = Resolved True \<and>
           effects s1 = effects s @
             [StatusConnectSuccess fileUri creds,
              TelemetryEvent ''DatabaseConnected''
                ((clock s (Suc (clockReads s)) - startTime et)
                   - (clock s (clockReads s) - startTime st))
                (clock s (clockReads s) - startTime st)]"
proof -
  have w: "wellFormed s" using reach by (rule wellFormed_reachable)
  note facts = pending_connect_facts [OF w pend]
  let ?t = "s\<lparr>requests := filter (\<lambda>ik. fst ik \<noteq> i) (requests s)\<rparr>"
  have "step (Respond i (ConnectResult result)) s
      = Some (connectCallback fileUri creds et st p result ?t)"
    using idle pend by simp
  moreover have "promises ?t p = Pending" using facts(1) by simp
  ultimately show ?thesis
    using connectCallback_success [OF valid facts(3) facts(2), of ?t p fileUri creds]
    by simp
qed

text \<open>The theorem at a connect of \<open>doc1\<close> that the service answers with the handle \<open>abc\<close>.\<close>

theorem connect_telemetry_witness:
  "\<exists>s1. step (Respond 0 (ConnectResult okResult)) (snd (connect ''doc1'' credsDb1 start)) = Some s1 \<and>
           promises s1 0 = Resolved True \<and>
           effects s1 =
             [StatusConnecting ''doc1'' credsDb1,
              SendConnectionRequest 0
                \<lparr>ownerUri = ''doc1'',
                 connection = \<lparr>userName = ''a'', detailsPassword = ''pw'', serverName = ''srv'',
                   databaseName = ''db1''\<rparr>\<rparr>,
              StatusConnectSuccess ''doc1'' credsDb1,
              TelemetryEvent ''DatabaseConnected'' 20 10]"
  using connect_telemetry [of "[Call_connect ''doc1'' credsDb1]" sampleConstants sampleClock
      "snd (connect ''doc1'' credsDb1 start)" 0 "''doc1''" credsDb1
      "\<lparr>startTime = 0, elapsed = None\<rparr>" "\<lparr>startTime = 10, elapsed = None\<rparr>" 0 okResult "''abc''"]
  by (simp add: start_def init_def connect_fields sampleClock_def okResult_def
      validConnectionId_def
      connect_def newPromise_def newTimer_def hrtime_def emit_def sendRequest_def Let_def
      credsDb1_def sampleConstants_def)

text \<open>
  C1 as the specification states it fails: with clock readings 0, 10, 20 and 30 the
  whole connect call takes 30 and the round trip 10; the one event emitted carries 20
  and 10, not 30 and 10.
\<close>

theorem connect_telemetry_counterexample:
  "map_option telemetryEvents
     (run [Call_connect ''doc1'' credsDb1, Respond 0 (ConnectResult okResult)] start)
   = Some [TelemetryEvent ''DatabaseConnected'' 20 10] \<and>
   map_option telemetryEvents
     (run [Call_connect ''doc1'' credsDb1, Respond 0 (ConnectResult okResult)] start)
   \<noteq> Some [spec_connectedEvent (sampleClock 0) (sampleClock 1) (sampleClock 2) (sampleClock 3)]"
  by (simp add: eval_defs telemetryEvents_def spec_connectedEvent_def)

text \<open>
  C4. For every connect call whose answer carries an empty (or missing) handle, in any
  state the manager can reach: the answer is processed, the promise of the call is
  rejected (the operation signals failure), the registry is not changed, so
  \<open>isConnected\<close> of the resource is what it was (false if it was false), and exactly
  two effects follow: the user-visible error, which is the response's message list
  after the constant prefix \<open>Constants.msgError\<close>, and the Status Reporter's error
  notification with the message list itself.
\<close>

theorem connect_empty_handle_fails:
  assumes reach: "run evs (init K clk) = Some s"
    and pend: "map_of (requests s) i = Some (ConnectCallback fileUri creds et st p)"
    and idle: "microtasks s = []"
    and empty: "validConnectionId result = None"
  shows "\<exists>s1. step (Respond i (ConnectResult result)) s = Some s1 \<and>
           (\<exists>why. promises s1 p = Rejected why) \<and>
           connections s1 = connections s \<and>
           (isConnected s1 fileUri \<longleftrightarrow> isConnected s fileUri) \<and>
           effects s1 = effects s @
             [ShowErrorMsg (msgError (constants s) @ messages result),
              StatusConnectError fileUri creds (messages result)]"
proof -
  have w: "wellFormed s" using reach by (rule wellFormed_reachable)
  note facts = pending_connect_facts [OF w pend]
  let ?t = "s\<lparr>requests := filter (\<lambda>ik. fst ik \<noteq> i) (requests s)\<rparr>"
  have "step (Respond i (ConnectResult result)) s
      = Some (connectCallback fileUri creds et st p result ?t)"
    using idle pend by simp
  moreover have "promises ?t p = Pending" using facts(1) by simp
  ultimately show ?thesis
    using connectCallback_failure [OF empty facts(3), of ?t p fileUri creds et]
    by (simp add: isConnected_def)
qed

text \<open>The theorem at a connect of \<open>doc1\<close> that the service answers with an empty handle.\<close>

theorem connect_empty_handle_fails_witness:
  "\<exists>s1. step (Respond 0 (ConnectResult failResult)) (snd (connect ''doc1'' credsDb1 start)) = Some s1 \<and>
           (\<exists>why. promises s1 0 = Rejected why) \<and>
           connections s1 = connections start \<and>
           \<not> isConnected s1 ''doc1'' \<and>
           effects s1 =
             [StatusConnecting ''doc1'' credsDb1,
              SendConnectionRequest 0
                \<lparr>ownerUri = ''doc1'',
                 connection = \<lparr>userName = ''a'', detailsPassword = ''pw'', serverName = ''srv'',
                   databaseName = ''db1''\<rparr>\<rparr>,
              ShowErrorMsg ''Error: Login failed'',
              StatusConnectError ''doc1'' credsDb1 ''Login failed'']"
  using connect_empty_handle_fails [of "[Call_connect ''doc1'' credsDb1]" sampleConstants sampleClock
      "snd (connect ''doc1'' credsDb1 start)" 0 "''doc1''" credsDb1
      "\<lparr>startTime = 0, elapsed = None\<rparr>" "\<lparr>startTime = 10, elapsed = None\<rparr>" 0 failResult]
  by (simp add: start_def init_def connect_fields sampleClock_def failResult_def
      validConnectionId_def isConnected_def hasProperty_def inherited_def objectPrototypeKeys_def
      connect_def newPromise_def newTimer_def hrtime_def emit_def sendRequest_def Let_def
      credsDb1_def sampleConstants_def)

text \<open>
  C10. For every connect call whose answer carries an empty (or missing) handle, the
  promise returned by connect is rejected with no reason value: the message list is
  not part of the outcome, and reaches the user-visible error display and the Status
  Reporter only.
\<close>

theorem connect_rejects_without_reason:
  assumes reach: "run evs (init K clk) = Some s"
    and pend: "map_of (requests s) i = Some (ConnectCallback fileUri creds et st p)"
    and idle: "microtasks s = []"
    and empty: "validConnectionId result = None"
  shows "\<exists>s1. step (Respond i (ConnectResult result)) s = Some s1 \<and>
           promises s1 p = Rejected None \<and>
           ShowErrorMsg (msgError (constants s) @ messages result) \<in> set (effects s1) \<and>
           StatusConnectError fileUri creds (messages result) \<in> set (effects s1)"
proof -
  have w: "wellFormed s" using reach by (rule wellFormed_reachable)
  note facts = pending_connect_facts [OF w pend]
  let ?t = "s\<lparr>requests := filter (\<lambda>ik. fst ik \<noteq> i) (requests s)\<rparr>"
  have "step (Respond i (ConnectResult result)) s
      = Some (connectCallback fileUri creds et st p result ?t)"
    using idle pend by simp
  moreover have "promises ?t p = Pending" using facts(1) by simp
  ultimately show ?thesis
    using connectCallback_failure [OF empty facts(3), of ?t p fileUri creds et]
    by simp
qed

text \<open>The theorem at the failed connect of \<open>doc1\<close>.\<close>

theorem connect_rejects_without_reason_witness:
  "\<exists>s1. step (Respond 0 (ConnectResult failResult)) (snd (connect ''doc1'' credsDb1 start)) = Some s1 \<and>
           promises s1 0 = Rejected None \<and>
           ShowErrorMsg ''Error: Login failed'' \<in> set (effects s1) \<and>
           StatusConnectError ''doc1'' credsDb1 ''Login failed'' \<in> set (effects s1)"
  using connect_rejects_without_reason [of "[Call_connect ''doc1'' credsDb1]" sampleConstants sampleClock
      "snd (connect ''doc1'' credsDb1 start)" 0 "''doc1''" credsDb1
      "\<lparr>startTime = 0, elapsed = None\<rparr>" "\<lparr>startTime = 10, elapsed = None\<rparr>" 0 failResult]
  by (simp add: start_def init_def connect_fields sampleClock_def failResult_def
      validConnectionId_def
      connect_def newPromise_def newTimer_def hrtime_def emit_def sendRequest_def Let_def
      credsDb1_def sampleConstants_def)

section \<open>Disconnecting\<close>

text \<open>
  What \<open>disconnect\<close> does when the test of line 79 fails. For every resource of which
  \<open>isConnected\<close> is false, in every state, \<open>disconnect\<close> returns a promise that is
  already resolved with \<open>true\<close>, issues no request, leaves the registry as it is and
  makes no call to the Status Reporter or any other collaborator. This is narrower
  than "no registry entry": \<open>isConnected\<close> is true of a name that the registry object
  inherits, stored or not.
\<close>

theorem disconnect_unconnected:
  assumes "\<not> isConnected s fileUri"
  shows "fst (disconnect fileUri s) = nextPromise s \<and>
         promises (snd (disconnect fileUri s)) (nextPromise s) = Resolved True \<and>
         requests (snd (disconnect fileUri s)) = requests s \<and>
         connections (snd (disconnect fileUri s)) = connections s \<and>
         effects (snd (disconnect fileUri s)) = effects s"
  using assms by (simp add: disconnect_def newPromise_def resolve_def isConnected_def)

text \<open>The same at \<open>doc1\<close> in the initial state.\<close>

theorem disconnect_unconnected_witness:
  "\<not> isConnected start ''doc1'' \<and>
   fst (disconnect ''doc1'' start) = 0 \<and>
   promises (snd (disconnect ''doc1'' start)) 0 = Resolved True \<and>
   requests (snd (disconnect ''doc1'' start)) = [] \<and>
   connections (snd (disconnect ''doc1'' start)) = \<lparr>own = Map.empty, proto = None\<rparr> \<and>
   effects (snd (disconnect ''doc1'' start)) = []"
  using disconnect_unconnected [of start "''doc1''"]
  by (simp add: start_def init_def isConnected_def hasProperty_def inherited_def
      objectPrototypeKeys_def)

text \<open>
  C2, at a failing input. \<open>doc1\<close> is connected and \<open>disconnect\<close> is called for it. Right
  after the call, before any answer, the returned promise is already resolved with
  \<open>true\<close> (line 91), while the registry still has the entry, the request is in flight
  and the Status Reporter has not been notified. When the service then answers
  \<open>false\<close>, the entry is removed and the Status Reporter notified, but the outcome
  stays \<open>true\<close>: \<open>resolve(result)\<close> of line 88 comes too late.
\<close>

theorem disconnect_resolves_before_response:
  "map_option (\<lambda>s. (promises s 1, isConnected s ''doc1'', inFlight s ''doc1'',
        count_list (effects s) (StatusNotConnected ''doc1'')))
     (run [Call_disconnect ''doc1''] connectedDoc1) = Some (Resolved True, True, 1, 0) \<and>
   map_option (\<lambda>s. (promises s 1, isConnected s ''doc1'', inFlight s ''doc1'',
        count_list (effects s) (StatusNotConnected ''doc1'')))
     (run [Call_disconnect ''doc1'', Respond 1 (DisconnectResult False)] connectedDoc1)
     = Some (Resolved True, False, 0, 1)"
  by (simp add: eval_defs inFlight_def)

section \<open>Overlapping operations on one resource\<close>

lemma disconnect_requests:
  "requests (snd (disconnect u s)) = requests s @
     (if isConnected s u then [(nextRequest s, DisconnectCallback u (nextPromise s))] else [])"
  by (simp add: disconnect_def newPromise_def resolve_def sendRequest_def emit_def
      isConnected_def)

lemma callback_requests:
  "requests (disconnectCallback u p b s) = requests s"
  "requests (connectCallback u c et st p r s) = requests s"
  "requests (createProfileCallback p b s) = requests s"
  "requests (promise_then q x s) = requests s"
  by (simp_all add: disconnectCallback_def connectCallback_def createProfileCallback_def
      promise_then_def Timer_end_def getDuration_def hrtime_def emit_def resolve_def reject_def
      Let_def split: option.splits promise_state.splits)

lemma lookup_append: "map_of xs j = Some k \<Longrightarrow> map_of (xs @ ys) j = Some k"
  by (simp add: map_add_def)

lemma lookup_filter: "i \<noteq> j \<Longrightarrow> map_of (filter (\<lambda>ik. fst ik \<noteq> i) xs) j = map_of xs j"
  by (induction xs) auto

lemma runCallback_keeps:
  assumes "runCallback k0 r t = Some s1" and "map_of (requests t) j = Some k"
  shows "map_of (requests s1) j = Some k"
proof (cases k0)
  case (DisconnectCallback u p)
  with assms show ?thesis by (cases r) (auto simp: callback_requests)
next
  case (ConnectCallback u c et st p)
  with assms show ?thesis by (cases r) (auto simp: callback_requests)
next
  case (ChooseDatabaseCallback u)
  with assms show ?thesis
    by (cases r)
      (auto simp: chooseDatabaseCallback_def callback_requests disconnect_requests lookup_append
        split_beta split: option.splits)
next
  case (NewConnectionCallback u p)
  with assms show ?thesis
    by (cases r)
      (auto simp: newConnectionCallback_def callback_requests disconnect_requests lookup_append
        split_beta split: option.splits)
next
  case (CreateProfileCallback p)
  with assms show ?thesis by (cases r) (auto simp: callback_requests)
qed

lemma runReaction_keeps:
  "map_of (requests t) j = Some k \<Longrightarrow> map_of (requests (runReaction x t)) j = Some k"
  by (cases x) (simp_all add: connect_fields callback_requests lookup_append split_beta
      resolve_fields)

lemma step_keeps:
  assumes "step e s = Some s1" and "map_of (requests s) j = Some k" and "\<forall>x. e \<noteq> Respond j x"
  shows "map_of (requests s1) j = Some k"
proof (cases e)
  case (Respond i r)
  with assms(3) have ij: "i \<noteq> j" by auto
  from Respond assms(1) obtain k0 where
    "runCallback k0 r (s\<lparr>requests := filter (\<lambda>ik. fst ik \<noteq> i) (requests s)\<rparr>) = Some s1"
    by (auto split: if_splits option.splits)
  then show ?thesis
  proof (rule runCallback_keeps)
    show "map_of (requests (s\<lparr>requests := filter (\<lambda>ik. fst ik \<noteq> i) (requests s)\<rparr>)) j = Some k"
      using assms(2) ij by (simp add: lookup_filter)
  qed
next
  case RunMicrotask
  with assms(1) obtain x xs where "microtasks s = x # xs"
    and "s1 = runReaction x (s\<lparr>microtasks := xs\<rparr>)"
    by (auto split: list.splits)
  then show ?thesis using assms(2) by (simp add: runReaction_keeps)
next
  case (Call_connect u c)
  with assms(1,2) show ?thesis by (auto simp: connect_fields lookup_append)
next
  case (Call_disconnect u)
  with assms(1,2) show ?thesis by (auto simp: disconnect_requests lookup_append)
next
  case (Call_onDisconnect u)
  with assms(1,2) show ?thesis by (auto simp: onDisconnect_def disconnect_requests lookup_append)
next
  case (Call_onChooseDatabase u)
  with assms(1,2) show ?thesis
    by (auto simp: onChooseDatabase_def sendRequest_def emit_def lookup_append)
next
  case (Call_onNewConnection u)
  with assms(1,2) show ?thesis
    by (auto simp: onNewConnection_def newPromise_def sendRequest_def emit_def lookup_append Let_def)
next
  case Call_onCreateProfile
  with assms(1,2) show ?thesis
    by (auto simp: onCreateProfile_def newPromise_def sendRequest_def emit_def lookup_append)
next
  case Call_onRemoveProfile
  with assms(1,2) show ?thesis by (auto simp: onRemoveProfile_def emit_def)
qed

lemma run_keeps:
  "run evs s = Some s1 \<Longrightarrow> map_of (requests s) j = Some k \<Longrightarrow> \<forall>x. Respond j x \<notin> set evs \<Longrightarrow>
   map_of (requests s1) j = Some k"
proof (induction evs arbitrary: s)
  case Nil
  then show ?case by simp
next
  case (Cons e evs)
  from Cons.prems(1) obtain s0 where e: "step e s = Some s0" and r: "run evs s0 = Some s1"
    by (auto split: option.splits)
  have "\<forall>x. e \<noteq> Respond j x" using Cons.prems(3) by auto
  with e Cons.prems(2) have "map_of (requests s0) j = Some k" by (rule step_keeps)
  with r Cons.prems(3) show ?case by (intro Cons.IH) auto
qed

lemma run_append:
  "run (evs @ [e]) s = Some s1 \<longleftrightarrow> (\<exists>s0. run evs s = Some s0 \<and> step e s0 = Some s1)"
  by (induction evs arbitrary: s) (auto split: option.splits)

lemma step_RespondD:
  "step (Respond i r) s = Some s1 \<Longrightarrow> map_of (requests s) i = Some k \<Longrightarrow>
   runCallback k r (s\<lparr>requests := filter (\<lambda>ik. fst ik \<noteq> i) (requests s)\<rparr>) = Some s1"
  by (simp split: if_splits)

lemma disconnectCallback_connections:
  "connections (disconnectCallback u p b s) = deleteProperty u (connections s)"
  by (simp add: disconnectCallback_def resolve_fields emit_def Let_def)

lemma connectCallback_connections:
  "validConnectionId result = Some cid \<Longrightarrow>
   connections (connectCallback u c et st p result s)
     = setProperty u \<lparr>connectionId = cid, credentials = c\<rparr> (connections s)"
  "validConnectionId result = None \<Longrightarrow>
   connections (connectCallback u c et st p result s) = connections s"
  by (simp_all add: connectCallback_def Timer_end_def getDuration_def hrtime_def emit_def
      resolve_def reject_def Let_def split: option.splits)

lemma disconnect_response_deletes:
  assumes "map_of (requests s) j = Some (DisconnectCallback R d)"
    and "step (Respond j (DisconnectResult b)) s = Some s1"
  shows "own (connections s1) R = None"
  using step_RespondD [OF assms(2) assms(1)]
  by (auto simp: disconnectCallback_connections deleteProperty_def)

lemma connect_response_stores:
  assumes "map_of (requests s) i = Some (ConnectCallback R c et st p)"
    and "step (Respond i (ConnectResult result)) s = Some s1"
    and "validConnectionId result = Some cid" and "R \<noteq> ''__proto__''"
  shows "own (connections s1) R = Some \<lparr>connectionId = cid, credentials = c\<rparr>"
  using step_RespondD [OF assms(2) assms(1)] assms(3,4)
  by (auto simp: connectCallback_connections setProperty_def)

text \<open>
  C3, as the code has it. The manager has no guard per resource: \<open>connect\<close> issues its
  request in every state, also when requests for the same resource are in flight
  (third part). When a connect request for \<open>R\<close>, to be answered with a non-empty handle,
  and a disconnect request for \<open>R\<close> are both in flight, the registry's state for \<open>R\<close>
  after the two answers is the one of the answer delivered last, whatever else
  happens in between: no entry when the disconnect answer comes last (first part),
  the session of the connect when its answer comes last (second part). The key
  \<open>__proto__\<close> is left out: an assignment to it adds no entry.
\<close>

theorem last_response_wins:
  assumes pc: "map_of (requests s) i = Some (ConnectCallback R c et st p)"
    and pd: "map_of (requests s) j = Some (DisconnectCallback R d)"
    and valid: "validConnectionId result = Some cid"
    and key: "R \<noteq> ''__proto__''"
  shows "(\<forall>evs s1. (\<forall>x. Respond j x \<notin> set evs) \<longrightarrow>
            run (evs @ [Respond j (DisconnectResult b)]) s = Some s1 \<longrightarrow>
            own (connections s1) R = None) \<and>
         (\<forall>evs s2. (\<forall>x. Respond i x \<notin> set evs) \<longrightarrow>
            run (evs @ [Respond i (ConnectResult result)]) s = Some s2 \<longrightarrow>
            own (connections s2) R = Some \<lparr>connectionId = cid, credentials = c\<rparr>) \<and>
         requests (snd (connect R c2 s)) = requests s @
           [(nextRequest s, ConnectCallback R c2
               \<lparr>startTime = clock s (clockReads s), elapsed = None\<rparr>
               \<lparr>startTime = clock s (Suc (clockReads s)), elapsed = None\<rparr> (nextPromise s))]"
proof (intro conjI allI impI)
  fix evs s1
  assume "\<forall>x. Respond j x \<notin> set evs" and "run (evs @ [Respond j (DisconnectResult b)]) s = Some s1"
  then obtain s0 where "run evs s = Some s0" and st: "step (Respond j (DisconnectResult b)) s0 = Some s1"
    and "map_of (requests s0) j = Some (DisconnectCallback R d)"
    using pd by (auto simp: run_append dest: run_keeps)
  then show "own (connections s1) R = None"
    by (auto intro: disconnect_response_deletes)
next
  fix evs s2
  assume "\<forall>x. Respond i x \<notin> set evs" and "run (evs @ [Respond i (ConnectResult result)]) s = Some s2"
  then obtain s0 where "run evs s = Some s0" and st: "step (Respond i (ConnectResult result)) s0 = Some s2"
    and "map_of (requests s0) i = Some (ConnectCallback R c et st p)"
    using pc by (auto simp: run_append dest: run_keeps)
  then show "own (connections s2) R = Some \<lparr>connectionId = cid, credentials = c\<rparr>"
    using valid key by (auto intro: connect_response_stores)
qed (rule connect_fields)

text \<open>
  The theorem at \<open>busyDoc1\<close>, with the connect answered first and the disconnect last,
  and the other way round.
\<close>

theorem last_response_wins_witness:
  "(\<exists>s1. run [Respond 2 (ConnectResult okResult), Respond 1 (DisconnectResult True)] busyDoc1 = Some s1 \<and>
      own (connections s1) ''doc1'' = None) \<and>
   (\<exists>s2. run [Respond 1 (DisconnectResult True), Respond 2 (ConnectResult okResult)] busyDoc1 = Some s2 \<and>
      own (connections s2) ''doc1'' = Some \<lparr>connectionId = ''abc'', credentials = credsDb2\<rparr>)"
proof -
  have pc: "map_of (requests busyDoc1) 2 = Some (ConnectCallback ''doc1'' credsDb2
      \<lparr>startTime = 40, elapsed = None\<rparr> \<lparr>startTime = 50, elapsed = None\<rparr> 2)"
    by (simp add: eval_defs)
  have pd: "map_of (requests busyDoc1) 1 = Some (DisconnectCallback ''doc1'' 1)"
    by (simp add: eval_defs)
  have v: "validConnectionId okResult = Some ''abc''"
    by (simp add: eval_defs)
  have k: "''doc1'' \<noteq> ''__proto__''" by simp
  note th = last_response_wins [OF pc pd v k, of True credsDb1]
  obtain s1 where r1: "run ([Respond 2 (ConnectResult okResult)] @ [Respond 1 (DisconnectResult True)]) busyDoc1 = Some s1"
    by (simp add: eval_defs)
  obtain s2 where r2: "run ([Respond 1 (DisconnectResult True)] @ [Respond 2 (ConnectResult okResult)]) busyDoc1 = Some s2"
    by (simp add: eval_defs)
  have "own (connections s1) ''doc1'' = None"
    by (rule th [THEN conjunct1, rule_format, OF _ r1]) simp
  moreover have "own (connections s2) ''doc1'' = Some \<lparr>connectionId = ''abc'', credentials = credsDb2\<rparr>"
    by (rule th [THEN conjunct2, THEN conjunct1, rule_format, OF _ r2]) simp
  ultimately show ?thesis using r1 r2 by simp
qed

text \<open>
  C3 as the specification states it fails: after \<open>disconnect\<close> is called for the
  connected \<open>doc1\<close> one request for \<open>doc1\<close> is in flight, and a \<open>connect\<close> called then
  begins at once, so that two are.
\<close>

theorem unserialized_counterexample:
  "map_option (\<lambda>s. inFlight s ''doc1'') (run [Call_disconnect ''doc1''] connectedDoc1) = Some 1 \<and>
   map_option (\<lambda>s. inFlight s ''doc1'')
     (run [Call_disconnect ''doc1'', Call_connect ''doc1'' credsDb2] connectedDoc1) = Some 2"
  by (simp add: eval_defs inFlight_def)

section \<open>Switching the database\<close>




section \<open>The registry invariant\<close>

lemma connectRequested_mono:
  "connectRequested s k \<Longrightarrow> effects t = effects s @ es \<Longrightarrow> connectRequested t k"
  by (cases k) auto

lemma grows_refl: "grows s s"
  by (simp add: grows_def)

lemma grows_trans:
  assumes "grows s t" and "grows t u"
  shows "grows s u"
proof -
  from assms(1) obtain es ks where 1: "effects t = effects s @ es" "requests t = requests s @ ks"
    "\<forall>ik \<in> set ks. connectRequested t (snd ik)"
    by (auto simp: grows_def)
  from assms(2) obtain es' ks' where 2: "effects u = effects t @ es'" "requests u = requests t @ ks'"
    "\<forall>ik \<in> set ks'. connectRequested u (snd ik)"
    by (auto simp: grows_def)
  have "\<forall>ik \<in> set (ks @ ks'). connectRequested u (snd ik)"
    using 1(3) 2(1,3) by (auto intro: connectRequested_mono)
  moreover have "effects u = effects s @ (es @ es')" using 1(1) 2(1) by simp
  moreover have "requests u = requests s @ (ks @ ks')" using 1(2) 2(2) by simp
  ultimately show ?thesis unfolding grows_def by blast
qed

lemma grows_same:
  "effects t = effects s @ es \<Longrightarrow> requests t = requests s \<Longrightarrow> grows s t"
  by (simp add: grows_def)

lemma connect_effects:
  "effects (snd (connect u c s)) = effects s @
     [StatusConnecting u c,
      SendConnectionRequest (nextRequest s)
        \<lparr>ownerUri = u,
         connection = \<lparr>userName = user c, detailsPassword = password c,
           serverName = server c, databaseName = database c\<rparr>\<rparr>]"
  by (simp add: connect_def newPromise_def newTimer_def hrtime_def sendRequest_def emit_def Let_def)

lemma disconnect_effects:
  "effects (snd (disconnect u s)) = effects s @
     (if isConnected s u then [SendDisconnectRequest (nextRequest s) u] else [])"
  by (simp add: disconnect_def newPromise_def resolve_def sendRequest_def emit_def isConnected_def)

lemma disconnect_connections: "connections (snd (disconnect u s)) = connections s"
  by (simp add: disconnect_def newPromise_def resolve_def sendRequest_def emit_def)

lemma callback_effects:
  "effects (disconnectCallback u p b s) = effects s @ [StatusNotConnected u]"
  "\<exists>es. effects (connectCallback u c et st p r s) = effects s @ es"
  "effects (createProfileCallback p b s) = effects s"
  "effects (promise_then q x s) = effects s"
  by (simp_all add: disconnectCallback_def connectCallback_def createProfileCallback_def
      promise_then_def Timer_end_def getDuration_def hrtime_def emit_def resolve_def reject_def
      Let_def split: option.splits promise_state.splits)

lemma callback_connections:
  "connections (createProfileCallback p b s) = connections s"
  "connections (promise_then q x s) = connections s"
  by (simp_all add: createProfileCallback_def promise_then_def resolve_def
      split: promise_state.splits)

lemma grows_connect: "grows s (snd (connect u c s))"
  by (simp add: grows_def connect_effects connect_fields)

lemma grows_disconnect: "grows s (snd (disconnect u s))"
  by (simp add: grows_def disconnect_effects disconnect_requests)

lemma grows_promise_then: "grows s (promise_then q x s)"
  by (rule grows_same [of _ _ "[]"]) (simp_all add: callback_effects callback_requests)

lemma grows_runReaction: "grows s (runReaction x (s\<lparr>microtasks := ms\<rparr>))"
proof -
  have g0: "grows s (s\<lparr>microtasks := ms\<rparr>)" by (simp add: grows_def)
  show ?thesis
  proof (cases x)
    case (ThenConnect u c)
    then show ?thesis using grows_trans [OF g0 grows_connect] by simp
  next
    case (ThenConnectAndResolve u c p)
    then show ?thesis
      using grows_trans [OF g0 grows_trans [OF grows_connect grows_promise_then]]
      by (simp add: split_beta)
  next
    case (ThenResolve p)
    then show ?thesis by (simp add: grows_def resolve_fields)
  qed
qed

lemma grows_chooseDatabaseCallback: "grows s (chooseDatabaseCallback u c s)"
  by (cases c)
    (auto simp: chooseDatabaseCallback_def grows_refl split_beta
      intro: grows_trans [OF grows_disconnect grows_promise_then])

lemma grows_newConnectionCallback: "grows s (newConnectionCallback u p c s)"
  by (cases c)
    (auto simp: newConnectionCallback_def grows_refl split_beta
      intro: grows_trans [OF grows_disconnect grows_promise_then])

lemma grows_runCallback:
  "runCallback k r s = Some t \<Longrightarrow> grows s t"
proof (cases k)
  case (DisconnectCallback u p)
  assume "runCallback k r s = Some t"
  with DisconnectCallback show ?thesis
    by (cases r) (auto intro: grows_same simp: callback_effects callback_requests)
next
  case (ConnectCallback u c et st p)
  assume "runCallback k r s = Some t"
  with ConnectCallback obtain x where "t = connectCallback u c et st p x s"
    by (cases r) auto
  then show ?thesis
    using callback_effects(2) [of u c et st p x s] by (auto simp: grows_def callback_requests)
next
  case (ChooseDatabaseCallback u)
  assume "runCallback k r s = Some t"
  with ChooseDatabaseCallback show ?thesis
    by (cases r) (auto simp: grows_chooseDatabaseCallback)
next
  case (NewConnectionCallback u p)
  assume "runCallback k r s = Some t"
  with NewConnectionCallback show ?thesis
    by (cases r) (auto simp: grows_newConnectionCallback)
next
  case (CreateProfileCallback p)
  assume "runCallback k r s = Some t"
  with CreateProfileCallback show ?thesis
    by (cases r) (auto intro: grows_same [of _ _ "[]"] simp: callback_effects callback_requests)
qed

lemma tracked_grows:
  assumes "tracked s" and "grows s t"
  shows "tracked t"
proof -
  from assms(2) obtain es ks where g: "effects t = effects s @ es" "requests t = requests s @ ks"
    "\<forall>ik \<in> set ks. connectRequested t (snd ik)"
    by (auto simp: grows_def)
  have "connectRequested t (snd ik)" if "ik \<in> set (requests t)" for ik
  proof (cases "ik \<in> set ks")
    case True
    with g(3) show ?thesis by simp
  next
    case False
    with that g(2) have "ik \<in> set (requests s)" by simp
    with assms(1) have "connectRequested s (snd ik)" by (simp add: tracked_def)
    then show ?thesis using g(1) by (rule connectRequested_mono)
  qed
  then show ?thesis by (simp add: tracked_def)
qed

lemma tracked_remove:
  "tracked s \<Longrightarrow> tracked (s\<lparr>requests := filter P (requests s)\<rparr>)"
proof -
  have "connectRequested (s\<lparr>requests := xs\<rparr>) k = connectRequested s k" for xs k
    by (cases k) simp_all
  then show "tracked s \<Longrightarrow> tracked (s\<lparr>requests := filter P (requests s)\<rparr>)"
    by (simp add: tracked_def)
qed

lemma tracked_step:
  assumes "tracked s" and "step e s = Some t"
  shows "tracked t"
proof (cases e)
  case (Respond i r)
  with assms(2) obtain k where
    "runCallback k r (s\<lparr>requests := filter (\<lambda>ik. fst ik \<noteq> i) (requests s)\<rparr>) = Some t"
    by (auto split: if_splits option.splits)
  then have "grows (s\<lparr>requests := filter (\<lambda>ik. fst ik \<noteq> i) (requests s)\<rparr>) t"
    by (rule grows_runCallback)
  with tracked_remove [OF assms(1)] show ?thesis by (rule tracked_grows)
next
  case RunMicrotask
  with assms(2) obtain x xs where "microtasks s = x # xs"
    and "t = runReaction x (s\<lparr>microtasks := xs\<rparr>)"
    by (auto split: list.splits)
  then show ?thesis using assms(1) grows_runReaction by (auto intro: tracked_grows)
next
  case (Call_connect u c)
  with assms show ?thesis by (auto intro: tracked_grows grows_connect)
next
  case (Call_disconnect u)
  with assms show ?thesis by (auto intro: tracked_grows grows_disconnect)
next
  case (Call_onDisconnect u)
  with assms show ?thesis by (auto simp: onDisconnect_def intro: tracked_grows grows_disconnect)
next
  case (Call_onChooseDatabase u)
  have "grows s (onChooseDatabase u s)"
    by (simp add: grows_def onChooseDatabase_def sendRequest_def emit_def)
  with Call_onChooseDatabase assms show ?thesis by (auto intro: tracked_grows)
next
  case (Call_onNewConnection u)
  have "grows s (snd (onNewConnection u s))"
    by (simp add: grows_def onNewConnection_def newPromise_def sendRequest_def emit_def Let_def)
  with Call_onNewConnection assms show ?thesis by (auto intro: tracked_grows)
next
  case Call_onCreateProfile
  have "grows s (snd (onCreateProfile s))"
    by (simp add: grows_def onCreateProfile_def newPromise_def sendRequest_def emit_def)
  with Call_onCreateProfile assms show ?thesis by (auto intro: tracked_grows)
next
  case Call_onRemoveProfile
  have "grows s (onRemoveProfile s)"
    by (simp add: grows_def onRemoveProfile_def emit_def)
  with Call_onRemoveProfile assms show ?thesis by (auto intro: tracked_grows)
qed

lemma step_cases [consumes 1, case_names Call Answer]:
  assumes "step e s = Some t"
  obtains "grows s t" and "connections t = connections s"
  | i k r where "e = Respond i r" and "map_of (requests s) i = Some k"
      and "runCallback k r (s\<lparr>requests := filter (\<lambda>ik. fst ik \<noteq> i) (requests s)\<rparr>) = Some t"
proof (cases e)
  case (Respond i r)
  with assms obtain k where "map_of (requests s) i = Some k"
    "runCallback k r (s\<lparr>requests := filter (\<lambda>ik. fst ik \<noteq> i) (requests s)\<rparr>) = Some t"
    by (auto split: if_splits option.splits)
  with Respond show ?thesis by (rule that(2))
next
  case RunMicrotask
  with assms obtain x xs where "microtasks s = x # xs"
    and t: "t = runReaction x (s\<lparr>microtasks := xs\<rparr>)"
    by (auto split: list.splits)
  have c: "connections t = connections s"
    unfolding t
    by (cases x) (simp_all add: connect_fields callback_connections resolve_fields split_beta)
  have "grows s t"
    unfolding t by (rule grows_runReaction)
  then show ?thesis using c by (rule that(1))
next
  case (Call_connect u c)
  with assms have "t = snd (connect u c s)" by simp
  then show ?thesis using that(1) grows_connect connect_fields(4) by simp
next
  case (Call_disconnect u)
  with assms have "t = snd (disconnect u s)" by simp
  then show ?thesis using that(1) grows_disconnect disconnect_connections by simp
next
  case (Call_onDisconnect u)
  with assms have "t = snd (disconnect u s)" by (simp add: onDisconnect_def)
  then show ?thesis using that(1) grows_disconnect disconnect_connections by simp
next
  case (Call_onChooseDatabase u)
  with assms have t: "t = onChooseDatabase u s" by simp
  show ?thesis
    by (rule that(1))
      (simp_all add: t grows_def onChooseDatabase_def sendRequest_def emit_def)
next
  case (Call_onNewConnection u)
  with assms have t: "t = snd (onNewConnection u s)" by simp
  show ?thesis
    by (rule that(1))
      (simp_all add: t grows_def onNewConnection_def newPromise_def sendRequest_def emit_def Let_def)
next
  case Call_onCreateProfile
  with assms have t: "t = snd (onCreateProfile s)" by simp
  show ?thesis
    by (rule that(1))
      (simp_all add: t grows_def onCreateProfile_def newPromise_def sendRequest_def emit_def)
next
  case Call_onRemoveProfile
  with assms have t: "t = onRemoveProfile s" by simp
  show ?thesis
    by (rule that(1)) (simp_all add: t grows_def onRemoveProfile_def emit_def)
qed

lemma validConnectionId_nonempty: "validConnectionId r = Some cid \<Longrightarrow> cid \<noteq> []"
  by (auto simp: validConnectionId_def split: option.splits if_splits)

lemma registryOk_same:
  "registryOk s \<Longrightarrow> effects t = effects s @ es \<Longrightarrow> connections t = connections s \<Longrightarrow> registryOk t"
  by (simp add: registryOk_def)

lemma registryOk_delete:
  "registryOk s \<Longrightarrow> effects t = effects s @ es \<Longrightarrow>
   connections t = deleteProperty u (connections s) \<Longrightarrow> registryOk t"
  by (simp add: registryOk_def deleteProperty_def)

lemma registryOk_set:
  "registryOk s \<Longrightarrow> effects t = effects s @ es \<Longrightarrow> cid \<noteq> [] \<Longrightarrow>
   StatusConnecting u c \<in> set (effects s) \<Longrightarrow>
   connections t = setProperty u \<lparr>connectionId = cid, credentials = c\<rparr> (connections s) \<Longrightarrow>
   registryOk t"
  by (auto simp: registryOk_def setProperty_def)

lemma chooseDatabaseCallback_connections:
  "connections (chooseDatabaseCallback u c s) = connections s"
  by (cases c)
    (simp_all add: chooseDatabaseCallback_def callback_connections disconnect_connections
      split_beta)

lemma newConnectionCallback_connections:
  "connections (newConnectionCallback u p c s) = connections s"
  by (cases c)
    (simp_all add: newConnectionCallback_def callback_connections disconnect_connections
      split_beta)

lemma registryOk_step:
  assumes tr: "tracked s" and ok: "registryOk s" and st: "step e s = Some t"
  shows "registryOk t"
  using st
proof (cases rule: step_cases)
  case Call
  then show ?thesis using ok by (auto simp: grows_def intro: registryOk_same)
next
  case (Answer i k r)
  let ?s = "s\<lparr>requests := filter (\<lambda>ik. fst ik \<noteq> i) (requests s)\<rparr>"
  have ok': "registryOk ?s" using ok by (simp add: registryOk_def)
  from grows_runCallback [OF Answer(3)] obtain es where es: "effects t = effects ?s @ es"
    by (auto simp: grows_def)
  show ?thesis
  proof (cases k)
    case (DisconnectCallback u p)
    with Answer(3) obtain b where "t = disconnectCallback u p b ?s" by (cases r) auto
    then have "connections t = deleteProperty u (connections ?s)"
      by (simp add: disconnectCallback_connections)
    with ok' es show ?thesis by (rule registryOk_delete)
  next
    case (ConnectCallback u c et st p)
    with Answer(3) obtain x where t: "t = connectCallback u c et st p x ?s" by (cases r) auto
    have "(i, k) \<in> set (requests s)" using Answer(2) by (rule map_of_SomeD)
    with tr ConnectCallback have req: "StatusConnecting u c \<in> set (effects ?s)"
      by (force simp: tracked_def)
    show ?thesis
    proof (cases "validConnectionId x")
      case None
      then have "connections t = connections ?s"
        unfolding t by (rule connectCallback_connections(2))
      with ok' es show ?thesis by (rule registryOk_same)
    next
      case (Some cid)
      then have "connections t = setProperty u \<lparr>connectionId = cid, credentials = c\<rparr> (connections ?s)"
        unfolding t by (rule connectCallback_connections(1))
      with ok' es validConnectionId_nonempty [OF Some] req show ?thesis
        by (rule registryOk_set)
    qed
  next
    case (ChooseDatabaseCallback u)
    with Answer(3) obtain x where "t = chooseDatabaseCallback u x ?s" by (cases r) auto
    then have "connections t = connections ?s"
      by (simp add: chooseDatabaseCallback_connections)
    with ok' es show ?thesis by (rule registryOk_same)
  next
    case (NewConnectionCallback u p)
    with Answer(3) obtain x where "t = newConnectionCallback u p x ?s" by (cases r) auto
    then have "connections t = connections ?s"
      by (simp add: newConnectionCallback_connections)
    with ok' es show ?thesis by (rule registryOk_same)
  next
    case (CreateProfileCallback p)
    with Answer(3) obtain b where "t = createProfileCallback p b ?s" by (cases r) auto
    then have "connections t = connections ?s"
      by (simp add: callback_connections)
    with ok' es show ?thesis by (rule registryOk_same)
  qed
qed

lemma registryOk_run:
  "tracked s \<Longrightarrow> registryOk s \<Longrightarrow> run evs s = Some t \<Longrightarrow> tracked t \<and> registryOk t"
proof (induction evs arbitrary: s)
  case Nil
  then show ?case by simp
next
  case (Cons e evs)
  from Cons.prems(3) obtain s0 where e: "step e s = Some s0" and r: "run evs s0 = Some t"
    by (auto split: option.splits)
  have "tracked s0" using Cons.prems(1) e by (rule tracked_step)
  moreover have "registryOk s0" using Cons.prems(1,2) e by (rule registryOk_step)
  ultimately show ?case using r by (rule Cons.IH)
qed

lemma registryOk_reachable:
  assumes "run evs (init K clk) = Some s"
  shows "registryOk s"
proof -
  have "tracked (init K clk)" "registryOk (init K clk)"
    by (simp_all add: tracked_def registryOk_def init_def)
  then show ?thesis using assms registryOk_run by blast
qed

text \<open>
  What holds of \<open>isConnected\<close> for the names that the registry object does not inherit:
  no stored session has an empty handle; a resource that \<open>connect\<close> was never called
  with has no entry and is not connected; a resource is connected after its connect
  was answered with a non-empty handle and is not connected after its disconnect was
  answered.
\<close>

lemma isConnected_own:
  "\<not> inherited (connections s) k \<Longrightarrow> isConnected s k \<longleftrightarrow> own (connections s) k \<noteq> None"
  by (simp add: isConnected_def hasProperty_def)

lemma no_empty_connectionId:
  "run evs (init K clk) = Some s \<Longrightarrow> own (connections s) k = Some ci \<Longrightarrow> connectionId ci \<noteq> []"
  using registryOk_reachable [of evs K clk s] by (simp add: registryOk_def)

lemma never_connected:
  assumes "run evs (init K clk) = Some s"
    and "\<forall>c. StatusConnecting k c \<notin> set (effects s)"
  shows "own (connections s) k = None"
    and "\<not> inherited (connections s) k \<Longrightarrow> \<not> isConnected s k"
proof -
  show o: "own (connections s) k = None"
    using registryOk_reachable [OF assms(1)] assms(2)
    by (cases "own (connections s) k") (auto simp: registryOk_def)
  show "\<not> isConnected s k" if "\<not> inherited (connections s) k"
    using that o by (simp add: isConnected_own)
qed

lemma connect_response_connected:
  assumes "map_of (requests s) i = Some (ConnectCallback R c et st p)"
    and "step (Respond i (ConnectResult result)) s = Some s1"
    and "validConnectionId result = Some cid"
  shows "isConnected s1 R"
  using step_RespondD [OF assms(2) assms(1)] assms(3)
  by (auto simp: connectCallback_connections setProperty_def isConnected_def hasProperty_def
      inherited_def objectPrototypeKeys_def)

lemma disconnect_response_disconnected:
  assumes "map_of (requests s) j = Some (DisconnectCallback R d)"
    and "step (Respond j (DisconnectResult b)) s = Some s1"
    and "\<not> inherited (connections s) R"
  shows "\<not> isConnected s1 R"
  using step_RespondD [OF assms(2) assms(1)] assms(3)
  by (auto simp: disconnectCallback_connections deleteProperty_def isConnected_def
      hasProperty_def inherited_def)

section \<open>Names inherited by the registry object\<close>

text \<open>
  C5, at a failing input. A resource named \<open>toString\<close> is connected with the handle
  \<open>abc\<close> and then disconnected, and the service answers the disconnect. The entry is
  gone, yet \<open>isConnected\<close> is still true: \<open>in\<close> (line 48) finds the method that the
  registry object inherits from \<open>Object.prototype\<close>. For the other names see
  \<open>connect_response_connected\<close> and \<open>disconnect_response_disconnected\<close>.
\<close>

theorem inherited_name_stays_connected:
  "map_option (\<lambda>s. (isConnected s ''toString'', own (connections s) ''toString''))
     (run [Call_connect ''toString'' credsDb1, Respond 0 (ConnectResult okResult)] start)
     = Some (True, Some \<lparr>connectionId = ''abc'', credentials = credsDb1\<rparr>) \<and>
   map_option (\<lambda>s. (isConnected s ''toString'', own (connections s) ''toString''))
     (run [Call_connect ''toString'' credsDb1, Respond 0 (ConnectResult okResult),
           Call_disconnect ''toString'', Respond 1 (DisconnectResult True)] start)
     = Some (True, None)"
  by (simp add: eval_defs)

text \<open>
  C9, at a failing input. In the initial state of a manager the registry has no entry
  for the name \<open>toString\<close>. \<open>disconnect\<close> of that name returns a promise resolved with
  \<open>true\<close>, but the test of line 79 succeeds on the inherited method, so a disconnect
  request is sent, and when the service answers it the Status Reporter is notified
  \<open>notConnected\<close>. For the resources of which \<open>isConnected\<close> is false see
  \<open>disconnect_unconnected\<close>.
\<close>

theorem disconnect_inherited_name_sends_request:
  "own (connections start) ''toString'' = None \<and>
   map_option (\<lambda>s. (promises s 0, inFlight s ''toString'', effects s))
     (run [Call_disconnect ''toString''] start)
     = Some (Resolved True, 1, [SendDisconnectRequest 0 ''toString'']) \<and>
   map_option effects
     (run [Call_disconnect ''toString'', Respond 0 (DisconnectResult True)] start)
     = Some [SendDisconnectRequest 0 ''toString'', StatusNotConnected ''toString'']"
  by (simp add: eval_defs inFlight_def)

text \<open>
  C6, at a failing input. In the initial state of a manager, for which \<open>connect\<close> has
  never been called, \<open>isConnected\<close> is true of the name \<open>toString\<close>. The invariant
  itself holds (\<open>no_empty_connectionId\<close>), and so does the consequence for the names
  that are not inherited (\<open>never_connected\<close>).
\<close>

theorem inherited_name_connected_initially:
  "isConnected (init K clk) ''toString''"
  by (simp add: eval_defs)

section \<open>No open resource\<close>

text \<open>
  C7, at a failing input. \<open>onNewConnection\<close> is invoked while no editor is open (the
  active uri is empty), the user picks a connection and the service answers with the
  handle \<open>abc\<close>. The informational message is shown, but the operation goes on (there
  is no \<open>return\<close> after line 102): a connection request with an empty \<open>ownerUri\<close> is
  sent and a session is stored under the empty key.
\<close>

theorem onNewConnection_without_resource_connects:
  "map_option (\<lambda>s. (effects s, own (connections s) []))
     (run [Call_onNewConnection [], Respond 0 (PickedCredentials (Some credsDb1)), RunMicrotask,
           Respond 1 (ConnectResult okResult), RunMicrotask] start)
   = Some ([ShowInfoMsg ''Open a SQL file'', ShowConnections 0,
            StatusConnecting [] credsDb1,
            SendConnectionRequest 1
              \<lparr>ownerUri = [],
               connection = \<lparr>userName = ''a'', detailsPassword = ''pw'', serverName = ''srv'',
                 databaseName = ''db1''\<rparr>\<rparr>,
            StatusConnectSuccess [] credsDb1,
            TelemetryEvent ''DatabaseConnected'' 20 10],
           Some \<lparr>connectionId = ''abc'', credentials = credsDb1\<rparr>)"
  by (simp add: eval_defs)

end
